theory Spec2Isabelle
  imports Complex_Main
begin

section \<open>Data model\<close>

text \<open>
  The notebook works on NumPy arrays of floats. A component is the real number its
  float stands for; infinities and NaN have no counterpart. A two-dimensional array
  keeps its second shape component explicitly, because an array with no rows still has
  a column count (\<^verbatim>\<open>index_vectors.shape[1]\<close>). Index ids are the positions
  produced by \<^verbatim>\<open>enumerate\<close>, hence naturals.
\<close>

datatype py_error = ValueError | IndexError | ZeroDivisionError | TypeError

type_synonym vector = "real list"

record ndarray2 =
  ncols :: nat
  rows :: "vector list"

text \<open>A NumPy array is rectangular: every row has \<open>shape[1]\<close> components.\<close>

definition rectangular :: "ndarray2 \<Rightarrow> bool" where
  "rectangular a = list_all (\<lambda>r. length r = ncols a) (rows a)"

type_synonym signature = "nat list"

type_synonym hash_table = "signature \<rightharpoonup> nat list"

text \<open>
  The ambient generator \<^verbatim>\<open>np.random\<close>: the sequence of standard-normal samples
  it is going to deliver.
\<close>

type_synonym rng = "nat \<Rightarrow> real"

section \<open>Floating point\<close>

text \<open>
  Rounding to the nearest integer, a tie going to the even one.
\<close>

definition round_half_even :: "real \<Rightarrow> int" where
  "round_half_even x =
     (let f = \<lfloor>x\<rfloor>; d = x - of_int f in
      if d < 1 / 2 then f else if 1 / 2 < d then f + 1
      else if even f then f else f + 1)"

text \<open>
  The double nearest to a real number, a tie going to the even mantissa (IEEE 754
  binary64): 53 bits of mantissa, exponents from \<open>-1022\<close> on, subnormal numbers
  below. The operations of Python's \<^verbatim>\<open>float\<close> are the exact operations followed by
  this rounding. Results beyond the largest double are not cut off.
\<close>

definition fl64 :: "real \<Rightarrow> real" where
  "fl64 x =
     (if x = 0 then 0
      else let e = max \<lfloor>log 2 \<bar>x\<bar>\<rfloor> (- 1022); u = 2 powr (of_int e - 52)
           in of_int (round_half_even (x / u)) * u)"

text \<open>
  What NumPy computes on the arrays depends on their element type and on the order in
  which it adds, so the two searches take the two operations they use as a
  parameter: the difference of two components and \<^verbatim>\<open>np.linalg.norm\<close> of one row.
\<close>

record float_ops =
  fsub :: "real \<Rightarrow> real \<Rightarrow> real"
  fnorm :: "vector \<Rightarrow> real"

text \<open>
  The operations on arrays of doubles: the norm squares every component, adds the
  squares and takes the root, rounding each time. The squares are added from left to
  right here; NumPy has an order of its own for longer rows, and the rows evaluated
  below have two components, where the order does not matter.
\<close>

definition norm64 :: "vector \<Rightarrow> real" where
  "norm64 r = fl64 (sqrt (foldl (\<lambda>s x. fl64 (s + fl64 (x * x))) 0 r))"

definition binary64 :: float_ops where
  "binary64 = \<lparr>fsub = (\<lambda>a b. fl64 (a - b)), fnorm = norm64\<rparr>"

section \<open>NumPy and Python primitives\<close>

text \<open>
  \<^verbatim>\<open>np.dot(matrix, vector)\<close>: the inner dimensions must agree. The projection is
  taken exactly; the statements below speak of the signatures that
  \<^verbatim>\<open>hash_vector\<close> delivers, never of the value of a projection.
\<close>

definition inner_prod :: "vector \<Rightarrow> vector \<Rightarrow> real" where
  "inner_prod u v = sum_list (map2 (*) u v)"

definition np_dot :: "ndarray2 \<Rightarrow> vector \<Rightarrow> py_error + vector" where
  "np_dot m v =
     (if ncols m \<noteq> length v then Inl ValueError
      else Inr (map (\<lambda>r. inner_prod r v) (rows m)))"

text \<open>
  \<^verbatim>\<open>array - vector\<close> with NumPy broadcasting of shapes \<open>(n, d)\<close> and \<open>(d',)\<close>:
  equal widths subtract componentwise, a width of one is stretched, anything else
  raises.
\<close>

definition np_sub :: "float_ops \<Rightarrow> ndarray2 \<Rightarrow> vector \<Rightarrow> py_error + ndarray2" where
  "np_sub ops a v =
     (if ncols a = length v
        then Inr \<lparr>ncols = ncols a, rows = map (\<lambda>r. map2 (fsub ops) r v) (rows a)\<rparr>
      else if length v = 1
        then Inr \<lparr>ncols = ncols a,
                  rows = map (\<lambda>r. map (\<lambda>x. fsub ops x (hd v)) r) (rows a)\<rparr>
      else if ncols a = 1
        then Inr \<lparr>ncols = length v,
                  rows = map (\<lambda>r. map (\<lambda>y. fsub ops (hd r) y) v) (rows a)\<rparr>
      else Inl ValueError)"

text \<open>\<^verbatim>\<open>np.linalg.norm(a, axis=1)\<close>: the computed norm of every row.\<close>

definition norm_axis1 :: "float_ops \<Rightarrow> ndarray2 \<Rightarrow> real list" where
  "norm_axis1 ops a = map (fnorm ops) (rows a)"

text \<open>
  \<^verbatim>\<open>np.argsort\<close>: the positions of the array in ascending order of their values.
  NumPy promises no order among equal values for its default sort; the model takes
  the stable one. The theorems below use only that the result is a permutation of the
  positions sorted by value.
\<close>

definition argsort :: "real list \<Rightarrow> nat list" where
  "argsort ds = sort_key (\<lambda>i. ds ! i) [0..<length ds]"

text \<open>The Python slice \<^verbatim>\<open>xs[:k]\<close>; a negative \<open>k\<close> counts from the end.\<close>

definition slice_to :: "int \<Rightarrow> 'a list \<Rightarrow> 'a list" where
  "slice_to k xs =
     (if 0 \<le> k then take (nat k) xs else take (length xs - nat (- k)) xs)"

text \<open>
  \<^verbatim>\<open>index_vectors[ids]\<close> with a list of positions: a position outside the array
  raises.
\<close>

definition take_rows :: "ndarray2 \<Rightarrow> nat list \<Rightarrow> py_error + ndarray2" where
  "take_rows a ids =
     (if list_all (\<lambda>i. i < length (rows a)) ids
      then Inr \<lparr>ncols = ncols a, rows = map (\<lambda>i. rows a ! i) ids\<rparr>
      else Inl IndexError)"

text \<open>
  \<^verbatim>\<open>np.array\<close> of a list of one-dimensional arrays: arrays of one length become
  the rows of a two-dimensional array; arrays of different lengths raise a ValueError
  (NumPy from 1.24 on; earlier versions warned and built an array of objects).
\<close>

definition np_array :: "'a list list \<Rightarrow> py_error + 'a list list" where
  "np_array rs =
     (case rs of
        [] \<Rightarrow> Inr []
      | r # rest \<Rightarrow>
          if list_all (\<lambda>r'. length r' = length r) rest then Inr rs else Inl ValueError)"

text \<open>
  \<^verbatim>\<open>list(s)\<close> of a set of ids. CPython enumerates a set in hash-table order, which
  the language leaves open; the model takes ascending order. The theorems below use
  only that the list has the elements of the set, each once.
\<close>

definition list_of_set :: "nat set \<Rightarrow> nat list" where
  "list_of_set s = sorted_list_of_set s"

text \<open>
  \<^verbatim>\<open>np.random.randn(h, d)\<close>: an \<open>h\<close> by \<open>d\<close> array filled row by row with the next
  samples of the generator, which advances by \<open>h * d\<close>.
\<close>

definition randn :: "nat \<Rightarrow> nat \<Rightarrow> rng \<Rightarrow> ndarray2 \<times> rng" where
  "randn h d g =
     (\<lparr>ncols = d, rows = map (\<lambda>i. map (\<lambda>j. g (i * d + j)) [0..<d]) [0..<h]\<rparr>,
      (\<lambda>n. g (n + h * d)))"

text \<open>
  The doubles that the literals \<^verbatim>\<open>0.65\<close> and \<^verbatim>\<open>0.6\<close> denote: the first lies
  above \<open>13/20\<close>, the second below \<open>3/5\<close>, each by \<open>1 / (5 * 2^53)\<close>.
\<close>

definition float_065 :: real where
  "float_065 = 5854679515581645 / 2 ^ 53"

definition float_06 :: real where
  "float_06 = 5404319552844595 / 2 ^ 53"

text \<open>
  \<^verbatim>\<open>int(dim ** e)\<close> for an integer \<open>dim\<close> (written \<open>d\<close> below) and a fractional
  float \<open>e\<close>: a negative base gives a complex power, which \<^verbatim>\<open>int\<close> rejects with a
  TypeError; otherwise the base is converted to a double, the power is the double
  nearest to the exact power (the C library's \<^verbatim>\<open>pow\<close>, taken as correctly
  rounded), and \<^verbatim>\<open>int\<close> truncates it.
\<close>

definition int_pow :: "int \<Rightarrow> real \<Rightarrow> py_error + nat" where
  "int_pow d e =
     (if d < 0 then Inl TypeError
      else Inr (nat \<lfloor>fl64 (fl64 (real_of_int d) powr e)\<rfloor>))"

text \<open>
  \<^verbatim>\<open>round(x, n)\<close> of a float: the multiple of \<open>10^-n\<close> closest to the exact value
  of \<open>x\<close>, a tie going to the even choice, delivered as the nearest double.
\<close>

definition py_round :: "real \<Rightarrow> nat \<Rightarrow> real" where
  "py_round x n = fl64 (of_int (round_half_even (x * 10 ^ n)) / 10 ^ n)"

text \<open>
  \<^verbatim>\<open>sum\<close> of a list of floats: added from left to right, starting from 0, every
  partial sum rounded (CPython before 3.12, the notebook records 3.9; later versions
  compensate the rounding errors of the partial sums).
\<close>

definition float_sum :: "real list \<Rightarrow> real" where
  "float_sum ts = foldl (\<lambda>s t. fl64 (s + t)) 0 ts"

text \<open>Evaluating a list of fallible results in order: the first error wins.\<close>

fun collect :: "(py_error + 'a) list \<Rightarrow> py_error + 'a list" where
  "collect [] = Inr []"
| "collect (Inl e # rs) = Inl e"
| "collect (Inr x # rs) = (case collect rs of Inl e \<Rightarrow> Inl e | Inr xs \<Rightarrow> Inr (x # xs))"

section \<open>Exhaustive search and recall\<close>

text \<open>The body of the loop of \<^verbatim>\<open>semi_optimized_exhaustive_search\<close> for one query.\<close>

definition exhaustive_query ::
  "float_ops \<Rightarrow> ndarray2 \<Rightarrow> int \<Rightarrow> vector \<Rightarrow> py_error + nat list" where
  "exhaustive_query ops index_vectors k query_vec =
     (case np_sub ops index_vectors query_vec of
        Inl e \<Rightarrow> Inl e
      | Inr diff \<Rightarrow> Inr (slice_to k (argsort (norm_axis1 ops diff))))"

text \<open>The loop fills \<^verbatim>\<open>ann_lists\<close>; the last statement packs it with \<^verbatim>\<open>np.array\<close>.\<close>

definition semi_optimized_exhaustive_search ::
  "float_ops \<Rightarrow> ndarray2 \<Rightarrow> ndarray2 \<Rightarrow> int \<Rightarrow> py_error + nat list list" where
  "semi_optimized_exhaustive_search ops index_vectors query_vectors k =
     (case collect (map (exhaustive_query ops index_vectors k) (rows query_vectors)) of
        Inl e \<Rightarrow> Inl e
      | Inr ann_lists \<Rightarrow> np_array ann_lists)"

text \<open>
  One element of the list comprehension of \<^verbatim>\<open>compute_recall_at_k\<close>:
  \<^verbatim>\<open>len(set(ann[i]) & set(nn_gt[i])) / k\<close>. The ground truth is indexed first, then
  the quotient of the two integers is taken: the double nearest to it.
\<close>

definition recall_term :: "'a list list \<Rightarrow> 'a list list \<Rightarrow> int \<Rightarrow> nat \<Rightarrow> py_error + real" where
  "recall_term nn_gt ann k i =
     (if length nn_gt \<le> i then Inl IndexError
      else if k = 0 then Inl ZeroDivisionError
      else Inr (fl64 (of_nat (card (set (ann ! i) \<inter> set (nn_gt ! i))) / of_int k)))"

definition compute_recall_at_k :: "'a list list \<Rightarrow> 'a list list \<Rightarrow> int \<Rightarrow> py_error + real" where
  "compute_recall_at_k nn_gt ann k =
     (case collect (map (recall_term nn_gt ann k) [0..<length ann]) of
        Inl e \<Rightarrow> Inl e
      | Inr ts \<Rightarrow>
          if length ann = 0 then Inl ZeroDivisionError
          else Inr (py_round (fl64 (float_sum ts / of_nat (length ann))) 3))"

section \<open>The hash family\<close>

text \<open>The two branches of \<^verbatim>\<open>generate_random_hash_functions\<close>: \<open>(num_hashes, hash_size)\<close>.\<close>

definition hash_params :: "int \<Rightarrow> py_error + nat \<times> nat" where
  "hash_params d =
     (if d < 150
      then (case int_pow d float_065 of Inl e \<Rightarrow> Inl e | Inr h \<Rightarrow> Inr (7, h))
      else (case int_pow d float_06 of Inl e \<Rightarrow> Inl e | Inr h \<Rightarrow> Inr (12, h)))"

text \<open>\<^verbatim>\<open>[np.random.randn(hash_size, dim) for _ in range(num_hashes)]\<close>\<close>

fun randn_list :: "nat \<Rightarrow> nat \<Rightarrow> nat \<Rightarrow> rng \<Rightarrow> ndarray2 list \<times> rng" where
  "randn_list 0 h d g = ([], g)"
| "randn_list (Suc n) h d g =
     (let (m, g') = randn h d g; (ms, g'') = randn_list n h d g' in (m # ms, g''))"

definition generate_random_hash_functions ::
  "int \<Rightarrow> rng \<Rightarrow> py_error + ndarray2 list \<times> rng" where
  "generate_random_hash_functions d g =
     (case hash_params d of
        Inl e \<Rightarrow> Inl e
      | Inr (num_hashes, hash_size) \<Rightarrow> Inr (randn_list num_hashes hash_size (nat d) g))"

definition hash_vector :: "vector \<Rightarrow> ndarray2 \<Rightarrow> py_error + signature" where
  "hash_vector v hash_function =
     (case np_dot hash_function v of
        Inl e \<Rightarrow> Inl e
      | Inr projection \<Rightarrow> Inr (map (\<lambda>x. if 0 < x then 1 else 0) projection))"

section \<open>The bucketed index\<close>

text \<open>
  \<^verbatim>\<open>if hash_key not in table: table[hash_key] = []\<close> followed by
  \<^verbatim>\<open>table[hash_key].append(i)\<close>.
\<close>

definition bucket_append :: "hash_table \<Rightarrow> signature \<Rightarrow> nat \<Rightarrow> hash_table" where
  "bucket_append t hash_key i =
     t(hash_key \<mapsto> (case t hash_key of None \<Rightarrow> [] | Some b \<Rightarrow> b) @ [i])"

text \<open>The inner loop of \<^verbatim>\<open>custom_indexing_algorithm\<close>, over \<^verbatim>\<open>enumerate(hash_functions)\<close>.\<close>

fun index_vector ::
  "nat \<Rightarrow> vector \<Rightarrow> (nat \<times> ndarray2) list \<Rightarrow> hash_table list \<Rightarrow> py_error + hash_table list" where
  "index_vector i v [] hash_tables = Inr hash_tables"
| "index_vector i v ((j, hash_function) # rest) hash_tables =
     (case hash_vector v hash_function of
        Inl e \<Rightarrow> Inl e
      | Inr hash_key \<Rightarrow>
          index_vector i v rest
            (hash_tables[j := bucket_append (hash_tables ! j) hash_key i]))"

text \<open>The outer loop, over \<^verbatim>\<open>enumerate(index_vectors)\<close>.\<close>

fun index_all ::
  "(nat \<times> vector) list \<Rightarrow> ndarray2 list \<Rightarrow> hash_table list \<Rightarrow> py_error + hash_table list" where
  "index_all [] hash_functions hash_tables = Inr hash_tables"
| "index_all ((i, v) # rest) hash_functions hash_tables =
     (case index_vector i v (enumerate 0 hash_functions) hash_tables of
        Inl e \<Rightarrow> Inl e
      | Inr hash_tables' \<Rightarrow> index_all rest hash_functions hash_tables')"

definition custom_indexing_algorithm ::
  "ndarray2 \<Rightarrow> ndarray2 list \<Rightarrow> py_error + hash_table list" where
  "custom_indexing_algorithm index_vectors hash_functions =
     index_all (enumerate 0 (rows index_vectors)) hash_functions
       (replicate (length hash_functions) Map.empty)"

section \<open>Candidate search\<close>

definition max_candidates :: "ndarray2 \<Rightarrow> nat" where
  "max_candidates index_vectors = (if ncols index_vectors < 150 then 1000 else 1400)"

text \<open>
  The loop over \<^verbatim>\<open>zip(hash_functions, hash_tables)\<close> that fills
  \<^verbatim>\<open>candidate_indices\<close> for one query.
\<close>

fun gather ::
  "vector \<Rightarrow> nat \<Rightarrow> (ndarray2 \<times> hash_table) list \<Rightarrow> nat set \<Rightarrow> py_error + nat set" where
  "gather q c [] candidate_indices = Inr candidate_indices"
| "gather q c ((hash_function, hash_table) # rest) candidate_indices =
     (case hash_vector q hash_function of
        Inl e \<Rightarrow> Inl e
      | Inr hash_key \<Rightarrow>
          (case hash_table hash_key of
             None \<Rightarrow> gather q c rest candidate_indices
           | Some candidates \<Rightarrow>
               gather q c rest (candidate_indices \<union> set (take c candidates))))"

text \<open>The re-ranking of a non-empty candidate set.\<close>

definition rerank ::
  "float_ops \<Rightarrow> ndarray2 \<Rightarrow> vector \<Rightarrow> int \<Rightarrow> nat list \<Rightarrow> py_error + nat list" where
  "rerank ops index_vectors query_vec k candidate_indices =
     (case take_rows index_vectors candidate_indices of
        Inl e \<Rightarrow> Inl e
      | Inr candidate_vectors \<Rightarrow>
          (case np_sub ops candidate_vectors query_vec of
             Inl e \<Rightarrow> Inl e
           | Inr diff \<Rightarrow>
               Inr (map (\<lambda>p. candidate_indices ! p)
                      (slice_to k (argsort (norm_axis1 ops diff))))))"

text \<open>The body of the loop of \<^verbatim>\<open>custom_index_search\<close> for one query.\<close>

definition search_query ::
  "float_ops \<Rightarrow> ndarray2 \<Rightarrow> ndarray2 list \<Rightarrow> hash_table list \<Rightarrow> int \<Rightarrow> vector
     \<Rightarrow> py_error + nat list" where
  "search_query ops index_vectors hash_functions hash_tables k query_vec =
     (case gather query_vec (max_candidates index_vectors)
             (zip hash_functions hash_tables) {} of
        Inl e \<Rightarrow> Inl e
      | Inr candidate_indices \<Rightarrow>
          if candidate_indices = {} then Inr []
          else rerank ops index_vectors query_vec k (list_of_set candidate_indices))"

text \<open>
  The loop fills the list \<^verbatim>\<open>result_indices\<close>, one array of ids per query; the last
  statement packs it with \<^verbatim>\<open>np.array\<close>.
\<close>

definition custom_index_search ::
  "float_ops \<Rightarrow> ndarray2 \<Rightarrow> ndarray2 \<Rightarrow> ndarray2 list \<Rightarrow> hash_table list \<Rightarrow> int
     \<Rightarrow> py_error + nat list list" where
  "custom_index_search ops query_vectors index_vectors hash_functions hash_tables k =
     (case collect (map (search_query ops index_vectors hash_functions hash_tables k)
                      (rows query_vectors)) of
        Inl e \<Rightarrow> Inl e
      | Inr result_indices \<Rightarrow> np_array result_indices)"

section \<open>Notions used in the statements\<close>

text \<open>
  The true Euclidean distance of two vectors of equal length, and the distance of a row
  to a query as the two searches compute it: the floating-point norm of the
  floating-point difference.
\<close>

definition euclidean :: "vector \<Rightarrow> vector \<Rightarrow> real" where
  "euclidean u v = sqrt (sum_list (map (\<lambda>x. x * x) (map2 (-) u v)))"

definition computed_distance :: "float_ops \<Rightarrow> vector \<Rightarrow> vector \<Rightarrow> real" where
  "computed_distance ops r q = fnorm ops (map2 (fsub ops) r q)"

text \<open>
  The ids one table contributes to a query: the first \<open>c\<close> ids of the bucket whose
  key is the signature \<^verbatim>\<open>hash_vector\<close> returns for the query; and the candidate set
  of a query, the union of the contributions of the tables.
\<close>

definition bucket_prefix :: "nat \<Rightarrow> vector \<Rightarrow> ndarray2 \<times> hash_table \<Rightarrow> nat set" where
  "bucket_prefix c q z =
     (case hash_vector q (fst z) of
        Inl e \<Rightarrow> {}
      | Inr s \<Rightarrow> (case snd z s of None \<Rightarrow> {} | Some b \<Rightarrow> set (take c b)))"

definition candidate_set ::
  "ndarray2 \<Rightarrow> ndarray2 list \<Rightarrow> hash_table list \<Rightarrow> vector \<Rightarrow> nat set" where
  "candidate_set index_vectors hash_functions hash_tables q =
     (\<Union>z \<in> set (zip hash_functions hash_tables).
        bucket_prefix (max_candidates index_vectors) q z)"

text \<open>
  Every id stored in the tables is a position of a collection of \<open>n\<close> vectors.
\<close>

definition valid_ids :: "nat \<Rightarrow> hash_table list \<Rightarrow> bool" where
  "valid_ids n hash_tables =
     (\<forall>t \<in> set hash_tables. \<forall>b \<in> ran t. \<forall>i \<in> set b. i < n)"

text \<open>
  The re-ranked prefix of a candidate set, as the search loop computes it.
\<close>

definition ranked :: "float_ops \<Rightarrow> ndarray2 \<Rightarrow> vector \<Rightarrow> int \<Rightarrow> nat set \<Rightarrow> nat list" where
  "ranked ops ivs q k cs =
     (if cs = {} then []
      else map (\<lambda>p. list_of_set cs ! p)
             (slice_to k (argsort (map (\<lambda>i. computed_distance ops (rows ivs ! i) q)
                (list_of_set cs)))))"

text \<open>
  The signature of a vector under a hash function of its width; one table of the
  index seen alone: the loop of the builder restricted to one hash function, what an
  append does to one bucket, and the ids of a collection whose signature is \<open>s\<close>, in
  ascending order.
\<close>

definition signature_of :: "ndarray2 \<Rightarrow> vector \<Rightarrow> signature" where
  "signature_of hash_function v =
     map (\<lambda>r. if 0 < inner_prod r v then 1 else 0) (rows hash_function)"

fun fill_table :: "ndarray2 \<Rightarrow> (nat \<times> vector) list \<Rightarrow> hash_table \<Rightarrow> hash_table" where
  "fill_table hf [] t = t"
| "fill_table hf ((i, v) # rest) t = fill_table hf rest (bucket_append t (signature_of hf v) i)"

definition extend_bucket :: "nat list option \<Rightarrow> nat list \<Rightarrow> nat list option" where
  "extend_bucket old new =
     (if new = [] then old else Some ((case old of None \<Rightarrow> [] | Some b \<Rightarrow> b) @ new))"

definition bucket_ids :: "vector list \<Rightarrow> ndarray2 \<Rightarrow> signature \<Rightarrow> nat list" where
  "bucket_ids vs hf s = filter (\<lambda>i. signature_of hf (vs ! i) = s) [0..<length vs]"

text \<open>
  The shape \<open>(rows, columns)\<close> of an array.
\<close>

definition shape :: "ndarray2 \<Rightarrow> nat \<times> nat" where
  "shape a = (length (rows a), ncols a)"

section \<open>Sample data\<close>

text \<open>
  A generator; a collection of three vectors, a hash family of two functions and the
  tables built from it; a single query, a batch of two queries that both meet a
  bucket, and a batch whose second query meets none.
\<close>

definition sample_rng :: rng where
  "sample_rng n = (if even n then 1 else - 1)"

definition sample_index :: ndarray2 where
  "sample_index = \<lparr>ncols = 2, rows = [[1, 2], [3, 1], [- 1, 2]]\<rparr>"

definition sample_family :: "ndarray2 list" where
  "sample_family = [\<lparr>ncols = 2, rows = [[1, 0], [0, 1]]\<rparr>, \<lparr>ncols = 2, rows = [[1, 1]]\<rparr>]"

definition sample_tables :: "hash_table list" where
  "sample_tables = [[[1, 1] \<mapsto> [0, 1], [0, 1] \<mapsto> [2]], [[1] \<mapsto> [0, 1, 2]]]"

definition sample_query :: ndarray2 where
  "sample_query = \<lparr>ncols = 2, rows = [[3, 2]]\<rparr>"

definition sample_queries :: ndarray2 where
  "sample_queries = \<lparr>ncols = 2, rows = [[3, 2], [- 1, 1]]\<rparr>"

definition stray_queries :: ndarray2 where
  "stray_queries = \<lparr>ncols = 2, rows = [[3, 2], [- 1, - 1]]\<rparr>"

text \<open>
  A collection with a component so small that its square is below the smallest
  double, with one hash function, the table built from it and one query.
\<close>

definition tiny :: real where
  "tiny = 1 / 2 ^ 600"

definition tiny_index :: ndarray2 where
  "tiny_index = \<lparr>ncols = 2, rows = [[tiny, 0], [0, 0]]\<rparr>"

definition tiny_queries :: ndarray2 where
  "tiny_queries = \<lparr>ncols = 2, rows = [[0, 0]]\<rparr>"



section \<open>Lemmas on rounding and doubles\<close>

lemma round_half_even_close: "\<bar>of_int (round_half_even y) - y\<bar> \<le> 1 / 2"
proof -
  define f where "f = \<lfloor>y\<rfloor>"
  define d where "d = y - of_int f"
  have d: "0 \<le> d" "d < 1" unfolding d_def f_def by linarith+
  have r: "round_half_even y
             = (if d < 1 / 2 then f else if 1 / 2 < d then f + 1
                else if even f then f else f + 1)"
    by (simp add: round_half_even_def Let_def f_def d_def)
  consider "d < 1 / 2" | "1 / 2 < d" | "d = 1 / 2" by linarith
  then show ?thesis
  proof cases
    case 1
    then have "round_half_even y = f" by (simp add: r)
    then show ?thesis using 1 d by (simp add: d_def)
  next
    case 2
    then have "round_half_even y = f + 1" by (simp add: r)
    then show ?thesis using 2 d by (simp add: d_def)
  next
    case 3
    then have "round_half_even y = f \<or> round_half_even y = f + 1" by (simp add: r)
    then show ?thesis using 3 by (auto simp: d_def)
  qed
qed

lemma round_half_even_of_int: "round_half_even (of_int n) = n"
  by (simp add: round_half_even_def)

lemma round_half_even_ge: "of_int n \<le> y \<Longrightarrow> n \<le> round_half_even y"
  using round_half_even_close[of y] by linarith

lemma round_half_even_le: "y \<le> of_int n \<Longrightarrow> round_half_even y \<le> n"
  using round_half_even_close[of y] by linarith

lemma round_half_even_less: "y < of_int n - 1 / 2 \<Longrightarrow> round_half_even y < n"
  using round_half_even_close[of y] by linarith

lemma round_half_even_small: "\<bar>y\<bar> < 1 / 2 \<Longrightarrow> round_half_even y = 0"
  using round_half_even_close[of y] by linarith

lemma round3_close: "\<bar>of_int (round_half_even (x * 1000)) / 1000 - x\<bar> \<le> 1 / 2000"
proof -
  define r where "r = (of_int (round_half_even (x * 1000)) :: real)"
  have "\<bar>r - x * 1000\<bar> \<le> 1 / 2"
    unfolding r_def by (rule round_half_even_close)
  then show ?thesis unfolding r_def[symmetric] by (simp add: abs_if split: if_splits)
qed

lemma floor_log2_eq:
  assumes "2 powr (of_int e) \<le> x" "x < 2 powr (of_int e + 1)"
  shows "\<lfloor>log 2 x\<rfloor> = e"
proof -
  have pos: "0 < x" using assms(1) by (smt (verit) powr_gt_zero)
  have "of_int e \<le> log 2 x"
    using assms(1) pos by (simp add: le_log_iff)
  moreover have "log 2 x < of_int e + 1"
    using assms(2) pos by (simp add: log_less_iff)
  ultimately show ?thesis by linarith
qed

lemma fl64_normal:
  assumes "2 powr (of_int e) \<le> \<bar>x\<bar>" "\<bar>x\<bar> < 2 powr (of_int e + 1)" "- 1022 \<le> e"
  shows "fl64 x = of_int (round_half_even (x / 2 powr (of_int e - 52))) * 2 powr (of_int e - 52)"
proof -
  have "x \<noteq> 0" using assms(1) by (smt (verit) powr_gt_zero)
  moreover have "max \<lfloor>log 2 \<bar>x\<bar>\<rfloor> (- 1022) = e"
    using floor_log2_eq[OF assms(1,2)] assms(3) by simp
  ultimately show ?thesis by (simp add: fl64_def Let_def)
qed

lemma fl64_subnormal:
  assumes "\<bar>x\<bar> < 2 powr (- 1022)"
  shows "fl64 x = of_int (round_half_even (x * 2 ^ 1074)) / 2 ^ 1074"
proof (cases "x = 0")
  case True
  then show ?thesis by (simp add: fl64_def round_half_even_def)
next
  case False
  then have pos: "0 < \<bar>x\<bar>" by simp
  have "log 2 \<bar>x\<bar> < - 1022"
    using assms pos by (simp add: log_less_iff)
  then have "\<lfloor>log 2 \<bar>x\<bar>\<rfloor> < - 1022" by linarith
  then have m: "max \<lfloor>log 2 \<bar>x\<bar>\<rfloor> (- 1022) = - 1022" by simp
  have u: "2 powr (- 1074 :: real) = 1 / 2 ^ 1074"
    by (simp add: powr_minus_divide)
  show ?thesis using False by (simp add: fl64_def Let_def m u)
qed

lemma fl64_zero: "fl64 0 = 0"
  by (simp add: fl64_def)

lemma int_binade:
  fixes n :: int
  assumes "n \<noteq> 0" "\<bar>n\<bar> < 2 ^ 53"
  obtains e :: nat where "e \<le> 52" "2 ^ e \<le> \<bar>n\<bar>" "\<bar>n\<bar> < 2 ^ Suc e"
proof -
  define e where "e = nat \<lfloor>log 2 (real_of_int \<bar>n\<bar>)\<rfloor>"
  have one: "1 \<le> real_of_int \<bar>n\<bar>" using assms(1) by linarith
  then have l0: "0 \<le> log 2 (real_of_int \<bar>n\<bar>)" by simp
  then have fl: "of_int \<lfloor>log 2 (real_of_int \<bar>n\<bar>)\<rfloor> = real e"
    unfolding e_def by simp
  have lo: "real e \<le> log 2 (real_of_int \<bar>n\<bar>)"
    using fl by linarith
  have hi: "log 2 (real_of_int \<bar>n\<bar>) < real e + 1"
    using fl by linarith
  have a: "2 powr real e \<le> real_of_int \<bar>n\<bar>"
    using lo one by (simp add: le_log_iff)
  have b: "real_of_int \<bar>n\<bar> < 2 powr (real e + 1)"
    using hi one by (simp add: log_less_iff)
  have a': "2 ^ e \<le> \<bar>n\<bar>"
  proof -
    have "real_of_int (2 ^ e) \<le> real_of_int \<bar>n\<bar>"
      using a by (simp add: powr_realpow)
    then show ?thesis by (simp only: of_int_le_iff)
  qed
  have b': "\<bar>n\<bar> < 2 ^ Suc e"
  proof -
    have "2 powr (real e + 1) = 2 ^ Suc e"
      using powr_realpow[of 2 "Suc e"] by (simp add: add.commute)
    then have "real_of_int \<bar>n\<bar> < real_of_int (2 ^ Suc e)"
      using b by simp
    then show ?thesis by (simp only: of_int_less_iff)
  qed
  have "e \<le> 52"
  proof (rule ccontr)
    assume "\<not> e \<le> 52"
    then have "53 \<le> e" by simp
    then have "(2 :: int) ^ 53 \<le> 2 ^ e" by (intro power_increasing) auto
    with a' assms(2) show False by simp
  qed
  with a' b' that show thesis by blast
qed

lemma fl64_dyadic:
  fixes n :: int
  assumes "\<bar>n\<bar> < 2 ^ 53" "j \<le> 1022"
  shows "fl64 (of_int n / 2 ^ j) = of_int n / 2 ^ j"
proof (cases "n = 0")
  case True
  then show ?thesis by (simp add: fl64_zero)
next
  case False
  from int_binade[OF False assms(1)] obtain e :: nat
    where e: "e \<le> 52" "2 ^ e \<le> \<bar>n\<bar>" "\<bar>n\<bar> < 2 ^ Suc e" by blast
  let ?x = "real_of_int n / 2 ^ j"
  let ?b = "int e - int j"
  have pj: "(2 :: real) ^ j = 2 powr real j" by (simp add: powr_realpow)
  have ax: "\<bar>?x\<bar> = real_of_int \<bar>n\<bar> / 2 powr real j" by (simp add: pj)
  have lo: "2 powr (of_int ?b) \<le> \<bar>?x\<bar>"
  proof -
    have "real_of_int (2 ^ e) \<le> real_of_int \<bar>n\<bar>" using e(2) by (simp only: of_int_le_iff)
    then have "2 powr real e \<le> real_of_int \<bar>n\<bar>" by (simp add: powr_realpow)
    then have "2 powr real e / 2 powr real j \<le> real_of_int \<bar>n\<bar> / 2 powr real j"
      by (intro divide_right_mono) auto
    then show ?thesis unfolding ax by (simp add: powr_diff)
  qed
  have hi: "\<bar>?x\<bar> < 2 powr (of_int ?b + 1)"
  proof -
    have "real_of_int \<bar>n\<bar> < real_of_int (2 ^ Suc e)" using e(3) by (simp only: of_int_less_iff)
    then have "real_of_int \<bar>n\<bar> < 2 powr (real e + 1)"
      using powr_realpow[of 2 "Suc e"] by (simp add: add.commute)
    then have "real_of_int \<bar>n\<bar> / 2 powr real j < 2 powr (real e + 1) / 2 powr real j"
      by (intro divide_strict_right_mono) auto
    then show ?thesis unfolding ax by (simp add: powr_diff algebra_simps)
  qed
  have rng: "- 1022 \<le> ?b" using assms(2) by simp
  have u: "(2 :: real) powr (of_int ?b - 52) = 1 / (2 ^ (52 - e) * 2 ^ j)"
  proof -
    have "real_of_int ?b - 52 = - (real (52 - e) + real j)"
      using e(1) by (simp add: of_nat_diff)
    then have "2 powr (of_int ?b - 52) = 2 powr (- (real (52 - e) + real j))"
      by (simp only:)
    also have "\<dots> = 1 / 2 powr (real (52 - e) + real j)"
      by (rule powr_minus_divide)
    also have "\<dots> = 1 / (2 ^ (52 - e) * 2 ^ j)"
      by (simp add: powr_add powr_realpow)
    finally show ?thesis .
  qed
  define U :: real where "U = 2 powr (of_int ?b - 52)"
  have U: "U = 1 / (2 ^ (52 - e) * 2 ^ j)" unfolding U_def by (rule u)
  have q: "?x / U = of_int (n * 2 ^ (52 - e))"
    by (simp add: U)
  have "fl64 ?x = of_int (round_half_even (?x / U)) * U"
    unfolding U_def by (rule fl64_normal[OF lo hi rng])
  also have "\<dots> = of_int (n * 2 ^ (52 - e)) * U"
    unfolding q round_half_even_of_int ..
  also have "\<dots> = ?x" by (simp add: U)
  finally show ?thesis .
qed

lemma fl64_int: "\<bar>n\<bar> < 2 ^ 53 \<Longrightarrow> fl64 (of_int n) = of_int n"
  using fl64_dyadic[of n 0] by simp

lemma fl64_numeral: "numeral w < (2 ^ 53 :: int) \<Longrightarrow> fl64 (numeral w) = numeral w"
  using fl64_int[of "numeral w"] by simp

lemma fl64_neg_numeral: "numeral w < (2 ^ 53 :: int) \<Longrightarrow> fl64 (- numeral w) = - numeral w"
  using fl64_int[of "- numeral w"] by simp

lemma fl64_one: "fl64 1 = 1"
  using fl64_int[of 1] by simp

lemma fl64_neg_one: "fl64 (- 1) = - 1"
  using fl64_int[of "- 1"] by simp

lemma fl64_quarter: "fl64 (1 / 4) = 1 / 4" "fl64 (1 / 8) = 1 / 8"
  using fl64_dyadic[of 1 2] fl64_dyadic[of 1 3] by simp_all

lemma fl64_2000: "fl64 (1 / 2000) = 1152921504606847 / 2305843009213693952"
proof -
  have "fl64 (1 / 2000)
          = of_int (round_half_even ((1 / 2000) / 2 powr (of_int (- 11) - 52)))
              * 2 powr (of_int (- 11) - 52)"
    by (rule fl64_normal) (simp_all add: powr_minus_divide)
  also have "(2 :: real) powr (of_int (- 11) - 52) = 1 / 2 ^ 63"
    by (simp add: powr_minus_divide)
  finally show ?thesis by (simp add: round_half_even_def Let_def)
qed

lemma floor_fl64:
  fixes e :: nat and h :: int
  assumes "e \<le> 52" "2 ^ e \<le> y" "y < 2 ^ Suc e"
    and "of_int h \<le> y" "y < of_int h + 1 - 1 / 2 ^ (53 - e)"
  shows "\<lfloor>fl64 y\<rfloor> = h"
proof -
  define U :: real where "U = 2 powr (of_int (int e) - 52)"
  have U: "U = 1 / 2 ^ (52 - e)"
  proof -
    have "real_of_int (int e) - 52 = - real (52 - e)"
      using assms(1) by (simp add: of_nat_diff)
    then have "U = 2 powr (- real (52 - e))" unfolding U_def by (simp only:)
    also have "\<dots> = 1 / 2 powr real (52 - e)" by (rule powr_minus_divide)
    finally show ?thesis by (simp add: powr_realpow)
  qed
  have ypos: "0 < y" using assms(2) by (smt (verit) zero_less_power)
  have lo: "2 powr (of_int (int e)) \<le> \<bar>y\<bar>"
    using assms(2) ypos by (simp add: powr_realpow)
  have hi: "\<bar>y\<bar> < 2 powr (of_int (int e) + 1)"
    using assms(3) ypos powr_realpow[of 2 "Suc e"] by (simp add: add.commute)
  define m where "m = round_half_even (y / U)"
  have "fl64 y = of_int (round_half_even (y / U)) * U"
    unfolding U_def by (rule fl64_normal[OF lo hi]) simp
  then have fl: "fl64 y = of_int m / 2 ^ (52 - e)"
    unfolding m_def[symmetric] by (simp add: U)
  have yu: "y / U = y * 2 ^ (52 - e)" by (simp add: U)
  have "of_int (h * 2 ^ (52 - e)) \<le> y / U"
    unfolding yu using assms(4) by simp
  then have mlo: "h * 2 ^ (52 - e) \<le> m"
    unfolding m_def by (rule round_half_even_ge)
  have half: "(1 / 2 ^ (53 - e)) * 2 ^ (52 - e) = (1 / 2 :: real)"
  proof -
    have "53 - e = Suc (52 - e)" using assms(1) by simp
    then show ?thesis by simp
  qed
  have "y * 2 ^ (52 - e) < (of_int h + 1 - 1 / 2 ^ (53 - e)) * 2 ^ (52 - e)"
    using assms(5) by simp
  also have "\<dots> = of_int ((h + 1) * 2 ^ (52 - e)) - 1 / 2"
    using half by (simp add: algebra_simps)
  finally have "y / U < of_int ((h + 1) * 2 ^ (52 - e)) - 1 / 2"
    unfolding yu .
  then have mhi: "m < (h + 1) * 2 ^ (52 - e)"
    unfolding m_def by (rule round_half_even_less)
  have a: "of_int h \<le> real_of_int m / 2 ^ (52 - e)"
  proof -
    have "real_of_int (h * 2 ^ (52 - e)) \<le> real_of_int m"
      using mlo by (simp only: of_int_le_iff)
    then show ?thesis by (simp add: field_simps)
  qed
  have b: "real_of_int m / 2 ^ (52 - e) < of_int h + 1"
  proof -
    have "real_of_int m < real_of_int ((h + 1) * 2 ^ (52 - e))"
      using mhi by (simp only: of_int_less_iff)
    then show ?thesis by (simp add: field_simps)
  qed
  from a b show ?thesis unfolding fl by linarith
qed

section \<open>Lemmas on the primitives\<close>

lemma collect_map_Inr:
  "(\<And>x. x \<in> set xs \<Longrightarrow> f x = Inr (g x)) \<Longrightarrow> collect (map f xs) = Inr (map g xs)"
  by (induction xs) auto

lemma collect_Inr_nth:
  "collect rs = Inr xs \<Longrightarrow> length xs = length rs \<and> (\<forall>j < length rs. rs ! j = Inr (xs ! j))"
proof (induction rs arbitrary: xs rule: collect.induct)
  case 1
  then show ?case by simp
next
  case (2 e rs)
  then show ?case by simp
next
  case (3 x rs)
  then obtain ys where ys: "collect rs = Inr ys" "xs = x # ys"
    by (auto split: sum.splits)
  with 3 show ?case by (auto simp: nth_Cons split: nat.splits)
qed

lemma collect_first_error:
  "i < length rs \<Longrightarrow> rs ! i = Inl e \<Longrightarrow> (\<forall>j < i. \<exists>x. rs ! j = Inr x) \<Longrightarrow> collect rs = Inl e"
proof (induction rs arbitrary: i rule: collect.induct)
  case 1
  then show ?case by simp
next
  case (2 e' rs)
  then show ?case by (cases i) auto
next
  case (3 x rs)
  from "3.prems" obtain i' where i: "i = Suc i'" by (cases i) auto
  with "3.prems" have "i' < length rs" "rs ! i' = Inl e" "\<forall>j < i'. \<exists>x. rs ! j = Inr x"
    by auto
  from "3.IH"[OF this] show ?case by simp
qed

lemma argsort_length: "length (argsort ds) = length ds"
  by (simp add: argsort_def)

lemma argsort_set: "set (argsort ds) = {..<length ds}"
  by (auto simp: argsort_def)

lemma argsort_distinct: "distinct (argsort ds)"
  by (simp add: argsort_def)

lemma argsort_sorted: "sorted (map (\<lambda>i. ds ! i) (argsort ds))"
  by (simp add: argsort_def)

lemma take_argsort_sorted:
  "sorted (map (\<lambda>i. ds ! i) (take n (argsort ds)))"
  using argsort_sorted[of ds] by (simp add: sorted_map sorted_wrt_take)

lemma slice_to_nonneg: "0 \<le> k \<Longrightarrow> slice_to k xs = take (nat k) xs"
  by (simp add: slice_to_def)

lemma slice_to_is_take: "\<exists>n. slice_to k xs = take n xs"
  by (auto simp: slice_to_def)


lemma np_array_uniform:
  "\<forall>r \<in> set rs. length r = n \<Longrightarrow> np_array rs = Inr rs"
  by (cases rs) (simp_all add: np_array_def list_all_iff)

lemma np_array_Inr: "np_array rs = Inr res \<Longrightarrow> res = rs"
  by (cases rs) (auto simp: np_array_def split: if_splits)

lemma np_array_ragged:
  assumes "i < length rs" "j < length rs" "length (rs ! i) \<noteq> length (rs ! j)"
  shows "np_array rs = Inl ValueError"
proof (cases rs)
  case Nil
  with assms(1) show ?thesis by simp
next
  case (Cons r rest)
  have "\<not> list_all (\<lambda>r'. length r' = length r) rest"
  proof
    assume "list_all (\<lambda>r'. length r' = length r) rest"
    then have "\<forall>x \<in> set rs. length x = length r"
      using Cons by (simp add: list_all_iff)
    then have "length (rs ! i) = length r" "length (rs ! j) = length r"
      using assms(1,2) by simp_all
    with assms(3) show False by simp
  qed
  with Cons show ?thesis by (simp add: np_array_def)
qed

lemma np_sub_same:
  "length v = ncols a \<Longrightarrow>
   np_sub ops a v = Inr \<lparr>ncols = ncols a, rows = map (\<lambda>r. map2 (fsub ops) r v) (rows a)\<rparr>"
  by (simp add: np_sub_def)

lemma distances_same:
  "length v = ncols a \<Longrightarrow> np_sub ops a v = Inr diff \<Longrightarrow>
   norm_axis1 ops diff = map (\<lambda>r. computed_distance ops r v) (rows a)"
  by (auto simp: np_sub_def norm_axis1_def computed_distance_def)

lemma list_of_set_props:
  "finite s \<Longrightarrow> set (list_of_set s) = s \<and> distinct (list_of_set s) \<and> length (list_of_set s) = card s"
  by (simp add: list_of_set_def)

section \<open>Lemmas on the exhaustive search and the recall\<close>

lemma exhaustive_query_ok:
  assumes "length q = ncols ivs" "0 \<le> k"
  shows "exhaustive_query ops ivs k q =
           Inr (take (nat k) (argsort (map (\<lambda>r. computed_distance ops r q) (rows ivs))))"
  using assms distances_same[OF assms(1), of ops]
  by (simp add: exhaustive_query_def np_sub_same slice_to_nonneg)

lemma recall_terms_ok:
  assumes "length ann \<le> length nn_gt" "k \<noteq> 0"
  shows "collect (map (recall_term nn_gt ann k) [0..<length ann])
           = Inr (map (\<lambda>i. fl64 (of_nat (card (set (ann ! i) \<inter> set (nn_gt ! i))) / of_int k))
                    [0..<length ann])"
  using assms by (intro collect_map_Inr) (auto simp: recall_term_def)

lemma compute_recall_ok:
  assumes "length ann \<le> length nn_gt" "k \<noteq> 0" "ann \<noteq> []"
  shows "compute_recall_at_k nn_gt ann k
           = Inr (py_round
                    (fl64 (float_sum
                             (map (\<lambda>i. fl64 (of_nat (card (set (ann ! i) \<inter> set (nn_gt ! i)))
                                               / of_int k))
                                [0..<length ann])
                           / of_nat (length ann))) 3)"
  using assms(3) by (simp add: compute_recall_at_k_def recall_terms_ok[OF assms(1,2)])

lemma compute_recall_empty: "compute_recall_at_k nn_gt [] k = Inl ZeroDivisionError"
  by (simp add: compute_recall_at_k_def)

lemma compute_recall_k0:
  assumes "length ann \<le> length nn_gt"
  shows "compute_recall_at_k nn_gt ann 0 = Inl ZeroDivisionError"
proof (cases "ann = []")
  case True
  then show ?thesis by (simp add: compute_recall_empty)
next
  case False
  let ?rs = "map (recall_term nn_gt ann 0) [0..<length ann]"
  have "collect ?rs = Inl ZeroDivisionError"
  proof (rule collect_first_error[of 0])
    show "0 < length ?rs" using False by simp
    have "nn_gt \<noteq> []" using False assms by auto
    then show "?rs ! 0 = Inl ZeroDivisionError"
      using False by (simp add: recall_term_def upt_conv_Cons)
  qed simp
  then show ?thesis by (simp add: compute_recall_at_k_def)
qed

lemma compute_recall_short_truth:
  assumes "length nn_gt < length ann" "k \<noteq> 0"
  shows "compute_recall_at_k nn_gt ann k = Inl IndexError"
proof -
  let ?rs = "map (recall_term nn_gt ann k) [0..<length ann]"
  have "collect ?rs = Inl IndexError"
  proof (rule collect_first_error[of "length nn_gt"])
    show "length nn_gt < length ?rs" using assms(1) by simp
    show "?rs ! length nn_gt = Inl IndexError"
      using assms(1) by (simp add: recall_term_def)
    show "\<forall>j < length nn_gt. \<exists>x. ?rs ! j = Inr x"
      using assms by (simp add: recall_term_def)
  qed
  then show ?thesis by (simp add: compute_recall_at_k_def)
qed

lemma compute_recall_k0_fails: "\<exists>e. compute_recall_at_k nn_gt ann 0 = Inl e"
proof (cases "ann = []")
  case True
  then show ?thesis by (simp add: compute_recall_empty)
next
  case False
  let ?rs = "map (recall_term nn_gt ann 0) [0..<length ann]"
  have "\<exists>e. ?rs ! 0 = Inl e"
    using False by (simp add: recall_term_def upt_conv_Cons)
  then obtain e where "?rs ! 0 = Inl e" ..
  moreover have "0 < length ?rs" using False by simp
  ultimately have "collect ?rs = Inl e" by (intro collect_first_error[of 0]) simp_all
  then show ?thesis by (simp add: compute_recall_at_k_def)
qed

text \<open>
  A mean that is a tie in exact arithmetic: one hit out of \<open>k = 2000\<close>. The double
  of \<open>1/2000\<close> lies above it, so the score is the double of \<open>0.001\<close>, not 0.
\<close>

lemma recall_tie_rounds_up:
  "compute_recall_at_k [[1 :: nat]] [[1]] 2000 = Inr (fl64 (1 / 1000))"
proof -
  have s: "fl64 (1152921504606847 / 2305843009213693952) = 1152921504606847 / 2305843009213693952"
    using fl64_dyadic[of 1152921504606847 61] by simp
  have r: "round_half_even (144115188075855875 / 288230376151711744) = 1"
    by (simp add: round_half_even_def Let_def)
  show ?thesis
    by (simp add: compute_recall_at_k_def recall_term_def py_round_def float_sum_def
        fl64_2000 s r)
qed

section \<open>Lemmas on the hash family\<close>

text \<open>
  The powers of doubles at 100, 200, 243 and 1024, from bounds on the exact powers by
  integer powers and on the effect of the rounded exponents.
\<close>

lemma powr_ratio_le:
  fixes x c :: real and p q :: nat
  assumes "0 < x" "0 < q" "0 \<le> c" "x ^ p \<le> c ^ q"
  shows "x powr (real p / real q) \<le> c"
proof -
  let ?y = "x powr (real p / real q)"
  have ypos: "0 < ?y" using assms(1) by simp
  have yq: "?y ^ q = x ^ p"
  proof -
    have "?y ^ q = ?y powr real q" using ypos by (simp add: powr_realpow)
    also have "\<dots> = x powr real p" using assms(2) by (simp add: powr_powr)
    also have "\<dots> = x ^ p" using assms(1) by (simp add: powr_realpow)
    finally show ?thesis .
  qed
  show ?thesis
  proof (rule ccontr)
    assume "\<not> ?y \<le> c"
    then have "c < ?y" by simp
    then have "c ^ q < ?y ^ q"
      using assms(2,3) by (intro power_strict_mono) auto
    with yq assms(4) show False by simp
  qed
qed

lemma powr_ratio_ge:
  fixes x c :: real and p q :: nat
  assumes "0 < x" "0 < q" "c ^ q \<le> x ^ p"
  shows "c \<le> x powr (real p / real q)"
proof -
  let ?y = "x powr (real p / real q)"
  have ypos: "0 < ?y" using assms(1) by simp
  have yq: "?y ^ q = x ^ p"
  proof -
    have "?y ^ q = ?y powr real q" using ypos by (simp add: powr_realpow)
    also have "\<dots> = x powr real p" using assms(2) by (simp add: powr_powr)
    also have "\<dots> = x ^ p" using assms(1) by (simp add: powr_realpow)
    finally show ?thesis .
  qed
  show ?thesis
  proof (rule ccontr)
    assume "\<not> c \<le> ?y"
    then have "?y < c" by simp
    then have "?y ^ q < c ^ q"
      using ypos assms(2) by (intro power_strict_mono) auto
    with yq assms(3) show False by simp
  qed
qed

lemma powr_small_le:
  fixes a t h :: real and n :: nat
  assumes "1 \<le> a" "0 \<le> t" "t \<le> 1 / real n" "0 < n" "0 \<le> h" "a \<le> 1 + real n * h"
  shows "a powr t \<le> 1 + h"
proof -
  have "a powr t \<le> a powr (1 / real n)"
    using assms(1,3) by (intro powr_mono)
  also have "\<dots> = a powr (real 1 / real n)" by simp
  also have "\<dots> \<le> 1 + h"
  proof (rule powr_ratio_le)
    show "0 < a" using assms(1) by simp
    show "0 < n" by fact
    show "0 \<le> 1 + h" using assms(5) by simp
    have "a ^ 1 \<le> 1 + real n * h" using assms(6) by simp
    also have "\<dots> \<le> (1 + h) ^ n"
      using assms(5) by (intro Bernoulli_inequality) simp
    finally show "a ^ 1 \<le> (1 + h) ^ n" .
  qed
  finally show ?thesis .
qed

lemma float_065_split: "float_065 = real 13 / real 20 + 1 / real (5 * 2 ^ 53)"
  by (simp add: float_065_def)

lemma float_06_split: "real 3 / real 5 = float_06 + 1 / real (5 * 2 ^ 53)"
  by (simp add: float_06_def)

lemma pow_065_bounds:
  fixes x lo hi :: real
  assumes "1 \<le> x" "x \<le> 10 ^ 9" "lo ^ 20 \<le> x ^ 13" "x ^ 13 \<le> hi ^ 20" "0 \<le> hi"
  shows "lo \<le> x powr float_065" "x powr float_065 \<le> hi * (1 + 1 / 10 ^ 6)"
proof -
  let ?t = "1 / real (5 * 2 ^ 53)"
  have x0: "0 < x" using assms(1) by simp
  have split: "x powr float_065 = x powr (real 13 / real 20) * x powr ?t"
    by (simp only: float_065_split powr_add)
  have a: "lo \<le> x powr (real 13 / real 20)"
    using x0 assms(3) by (intro powr_ratio_ge) auto
  have b: "x powr (real 13 / real 20) \<le> hi"
    using x0 assms(4,5) by (intro powr_ratio_le) auto
  have c: "1 \<le> x powr ?t"
    using assms(1) by (intro ge_one_powr_ge_zero) auto
  have d: "x powr ?t \<le> 1 + 1 / 10 ^ 6"
    using assms(1,2) by (intro powr_small_le[where n = "5 * 2 ^ 53"]) auto
  have p: "0 \<le> x powr (real 13 / real 20)" by simp
  show "lo \<le> x powr float_065"
  proof -
    have "lo \<le> x powr (real 13 / real 20) * 1" using a by simp
    also have "\<dots> \<le> x powr (real 13 / real 20) * x powr ?t"
      using c p by (intro mult_left_mono)
    finally show ?thesis unfolding split .
  qed
  show "x powr float_065 \<le> hi * (1 + 1 / 10 ^ 6)"
    unfolding split using b d assms(5) by (intro mult_mono) auto
qed

lemma pow_06_bounds:
  fixes x lo hi :: real
  assumes "1 \<le> x" "x \<le> 10 ^ 9" "lo ^ 5 \<le> x ^ 3" "x ^ 3 \<le> hi ^ 5" "0 \<le> hi"
  shows "lo / (1 + 1 / 10 ^ 6) \<le> x powr float_06" "x powr float_06 \<le> hi"
proof -
  let ?t = "1 / real (5 * 2 ^ 53)"
  have x0: "0 < x" using assms(1) by simp
  have split: "x powr (real 3 / real 5) = x powr float_06 * x powr ?t"
    by (simp only: float_06_split powr_add)
  have a: "lo \<le> x powr (real 3 / real 5)"
    using x0 assms(3) by (intro powr_ratio_ge) auto
  have b: "x powr (real 3 / real 5) \<le> hi"
    using x0 assms(4,5) by (intro powr_ratio_le) auto
  have c: "1 \<le> x powr ?t"
    using assms(1) by (intro ge_one_powr_ge_zero) auto
  have d: "x powr ?t \<le> 1 + 1 / 10 ^ 6"
    using assms(1,2) by (intro powr_small_le[where n = "5 * 2 ^ 53"]) auto
  have p: "0 \<le> x powr float_06" by simp
  show "x powr float_06 \<le> hi"
  proof -
    have "x powr float_06 * 1 \<le> x powr float_06 * x powr ?t"
      using c p by (intro mult_left_mono)
    with b show ?thesis unfolding split by simp
  qed
  show "lo / (1 + 1 / 10 ^ 6) \<le> x powr float_06"
  proof -
    have "lo \<le> x powr float_06 * x powr ?t" using a unfolding split .
    also have "\<dots> \<le> x powr float_06 * (1 + 1 / 10 ^ 6)"
      using d p by (intro mult_left_mono)
    finally show ?thesis by (simp add: field_simps)
  qed
qed

lemma int_pow_100: "int_pow 100 float_065 = Inr 19"
proof -
  note b = pow_065_bounds[of 100 19 "1996 / 100"]
  have lo: "19 \<le> (100 :: real) powr float_065" by (rule b(1)) (simp_all add: power_divide)
  have hi: "(100 :: real) powr float_065 \<le> 1996 / 100 * (1 + 1 / 10 ^ 6)"
    by (rule b(2)) (simp_all add: power_divide)
  have "\<lfloor>fl64 (100 powr float_065)\<rfloor> = 19"
    using lo hi by (intro floor_fl64[where e = 4]) simp_all
  then show ?thesis by (simp add: int_pow_def fl64_numeral)
qed

lemma int_pow_200: "int_pow 200 float_06 = Inr 24"
proof -
  note b = pow_06_bounds[of 200 "2401 / 100" "241 / 10"]
  have lo: "(2401 / 100) / (1 + 1 / 10 ^ 6) \<le> (200 :: real) powr float_06"
    by (rule b(1)) (simp_all add: power_divide)
  have hi: "(200 :: real) powr float_06 \<le> 241 / 10"
    by (rule b(2)) (simp_all add: power_divide)
  have "\<lfloor>fl64 (200 powr float_06)\<rfloor> = 24"
    using lo hi by (intro floor_fl64[where e = 4]) simp_all
  then show ?thesis by (simp add: int_pow_def fl64_numeral)
qed

lemma quotient_bound:
  fixes y p c r :: real
  assumes "0 < y" "0 < c" "c \<le> p" "y * p = r"
  shows "y \<le> r / c"
proof -
  have "y * c \<le> y * p" using assms(1,3) by (intro mult_left_mono) auto
  then show ?thesis using assms(2,4) by (simp add: pos_le_divide_eq)
qed

lemma ln3_ge_1: "1 \<le> ln (3 :: real)"
  using exp_le by (simp add: ln_ge_iff)

lemma int_pow_243: "int_pow 243 float_06 = Inr 26"
proof -
  let ?t = "1 / real (5 * 2 ^ 53)"
  let ?y = "(243 :: real) powr float_06"
  have e27: "(243 :: real) powr (real 3 / real 5) = 27"
  proof -
    have "(243 :: real) powr (real 3 / real 5) \<le> 27"
      by (rule powr_ratio_le) simp_all
    moreover have "27 \<le> (243 :: real) powr (real 3 / real 5)"
      by (rule powr_ratio_ge) simp_all
    ultimately show ?thesis by simp
  qed
  have split: "27 = ?y * 243 powr ?t"
    unfolding e27[symmetric] by (simp only: float_06_split powr_add)
  have t: "(243 :: real) powr ?t = exp (?t * ln 243)"
    by (simp add: powr_def)
  have "ln ((3 :: real) ^ 5) = real 5 * ln 3" by (rule ln_realpow)
  then have "ln (243 :: real) = 5 * ln 3" by simp
  then have l: "5 \<le> ln (243 :: real)" using ln3_ge_1 by simp
  have "1 + 1 / 2 ^ 53 \<le> 1 + ?t * ln 243"
    using l by (simp add: field_simps)
  also have "\<dots> \<le> exp (?t * ln 243)" by (rule exp_ge_add_one_self)
  finally have big: "1 + 1 / 2 ^ 53 \<le> (243 :: real) powr ?t" unfolding t .
  have ypos: "0 < ?y" by simp
  have hi: "?y \<le> 27 / (1 + 1 / 2 ^ 53)"
    by (rule quotient_bound[OF ypos _ big split[symmetric]]) simp
  note b = pow_06_bounds[of 243 27 27]
  have lo: "27 / (1 + 1 / 10 ^ 6) \<le> ?y" by (rule b(1)) simp_all
  have "\<lfloor>fl64 ?y\<rfloor> = 26"
    using lo hi by (intro floor_fl64[where e = 4]) simp_all
  then show ?thesis by (simp add: int_pow_def fl64_numeral)
qed

lemma int_pow_1024: "int_pow 1024 float_06 = Inr 63"
proof -
  let ?t = "1 / real (5 * 2 ^ 53)"
  let ?y = "(1024 :: real) powr float_06"
  have e64: "(1024 :: real) powr (real 3 / real 5) = 64"
  proof -
    have "(1024 :: real) powr (real 3 / real 5) \<le> 64"
      by (rule powr_ratio_le) simp_all
    moreover have "64 \<le> (1024 :: real) powr (real 3 / real 5)"
      by (rule powr_ratio_ge) simp_all
    ultimately show ?thesis by simp
  qed
  have split: "64 = ?y * 1024 powr ?t"
    unfolding e64[symmetric] by (simp only: float_06_split powr_add)
  have t: "(1024 :: real) powr ?t = exp (?t * ln 1024)"
    by (simp add: powr_def)
  have "ln ((3 :: real) ^ 5) = real 5 * ln 3" by (rule ln_realpow)
  then have "5 \<le> ln (243 :: real)" using ln3_ge_1 by simp
  also have "\<dots> \<le> ln (1024 :: real)" by simp
  finally have l: "5 \<le> ln (1024 :: real)" .
  have "1 + 1 / 2 ^ 53 \<le> 1 + ?t * ln 1024"
    using l by (simp add: field_simps)
  also have "\<dots> \<le> exp (?t * ln 1024)" by (rule exp_ge_add_one_self)
  finally have big: "1 + 1 / 2 ^ 53 \<le> (1024 :: real) powr ?t" unfolding t .
  have ypos: "0 < ?y" by simp
  have hi: "?y \<le> 64 / (1 + 1 / 2 ^ 53)"
    by (rule quotient_bound[OF ypos _ big split[symmetric]]) simp
  note b = pow_06_bounds[of 1024 64 64]
  have lo: "64 / (1 + 1 / 10 ^ 6) \<le> ?y" by (rule b(1)) simp_all
  have "\<lfloor>fl64 ?y\<rfloor> = 63"
    using lo hi by (intro floor_fl64[where e = 5]) simp_all
  then show ?thesis by (simp add: int_pow_def fl64_numeral)
qed

lemma hash_params_100: "hash_params 100 = Inr (7, 19)"
  by (simp add: hash_params_def int_pow_100)

lemma hash_params_200: "hash_params 200 = Inr (12, 24)"
  by (simp add: hash_params_def int_pow_200)

lemma hash_params_243: "hash_params 243 = Inr (12, 26)"
  by (simp add: hash_params_def int_pow_243)

lemma hash_params_1024: "hash_params 1024 = Inr (12, 63)"
  by (simp add: hash_params_def int_pow_1024)

lemma hash_params_0: "hash_params 0 = Inr (7, 0)"
  by (simp add: hash_params_def int_pow_def fl64_zero)

lemma hash_params_neg: "d < 0 \<Longrightarrow> hash_params d = Inl TypeError"
  by (simp add: hash_params_def int_pow_def)

lemma hash_params_pos:
  "0 \<le> d \<Longrightarrow>
   hash_params d = Inr (if d < 150 then 7 else 12,
                       nat \<lfloor>fl64 (fl64 (real_of_int d) powr (if d < 150 then float_065 else float_06))\<rfloor>)"
  by (simp add: hash_params_def int_pow_def)

lemma randn_shape: "shape (fst (randn h d g)) = (h, d)" "rectangular (fst (randn h d g))"
  by (simp_all add: randn_def shape_def rectangular_def list_all_iff)

lemma randn_list_shape:
  "map shape (fst (randn_list n h d g)) = replicate n (h, d)
     \<and> list_all rectangular (fst (randn_list n h d g))"
proof (induction n arbitrary: g)
  case 0
  then show ?case by simp
next
  case (Suc n)
  obtain m g' where r: "randn h d g = (m, g')" by (cases "randn h d g")
  obtain ms g'' where rl: "randn_list n h d g' = (ms, g'')" by (cases "randn_list n h d g'")
  from randn_shape[of h d g] r have "shape m = (h, d)" "rectangular m" by simp_all
  with Suc[of g'] r rl show ?case by simp
qed

lemma randn_list_empty:
  "randn_list n 0 0 g = (replicate n \<lparr>ncols = 0, rows = []\<rparr>, g)"
  by (induction n arbitrary: g) (simp_all add: randn_def)

lemma generate_params:
  "hash_params d = Inr (n, h) \<Longrightarrow>
   generate_random_hash_functions d g = Inr (randn_list n h (nat d) g)"
  by (simp add: generate_random_hash_functions_def)

lemma hash_vector_ok:
  "ncols hf = length v \<Longrightarrow> hash_vector v hf = Inr (signature_of hf v)"
  by (simp add: hash_vector_def np_dot_def signature_of_def)

lemma hash_vector_returns:
  "ncols hf = length v \<Longrightarrow> \<exists>s. hash_vector v hf = Inr s"
  by (simp add: hash_vector_def np_dot_def)

section \<open>Lemmas on the index builder\<close>

lemma index_vector_enumerate:
  assumes "\<forall>hf \<in> set hfs. ncols hf = length v" "length mid = length hfs" "length pre = j"
  shows "index_vector i v (enumerate j hfs) (pre @ mid)
           = Inr (pre @ map2 (\<lambda>hf t. bucket_append t (signature_of hf v) i) hfs mid)"
  using assms
proof (induction hfs arbitrary: j pre mid)
  case Nil
  then show ?case by simp
next
  case (Cons hf hfs)
  from Cons.prems(2) obtain t mid' where mid: "mid = t # mid'" "length mid' = length hfs"
    by (cases mid) auto
  have hv: "hash_vector v hf = Inr (signature_of hf v)"
    using Cons.prems(1) by (simp add: hash_vector_ok)
  let ?t' = "bucket_append t (signature_of hf v) i"
  have upd: "(pre @ mid)[j := bucket_append ((pre @ mid) ! j) (signature_of hf v) i]
               = (pre @ [?t']) @ mid'"
    using Cons.prems(3) mid(1) by (simp add: list_update_append nth_append)
  have "index_vector i v (enumerate (Suc j) hfs) ((pre @ [?t']) @ mid')
          = Inr ((pre @ [?t']) @ map2 (\<lambda>hf t. bucket_append t (signature_of hf v) i) hfs mid')"
    using Cons.prems(1,3) mid(2) by (intro Cons.IH) auto
  with hv upd mid(1) show ?case by simp
qed

lemma index_vector_ok:
  assumes "\<forall>hf \<in> set hfs. ncols hf = length v" "length ts = length hfs"
  shows "index_vector i v (enumerate 0 hfs) ts
           = Inr (map2 (\<lambda>hf t. bucket_append t (signature_of hf v) i) hfs ts)"
  using index_vector_enumerate[OF assms, of "[]" 0 i] by simp

lemma map2_fill_step:
  "length ts = length hfs \<Longrightarrow>
   map2 (\<lambda>hf t. fill_table hf rest t) hfs (map2 (\<lambda>hf t. bucket_append t (signature_of hf v) i) hfs ts)
     = map2 (\<lambda>hf t. fill_table hf ((i, v) # rest) t) hfs ts"
  by (induction ts hfs rule: list_induct2) auto

lemma map2_keep: "length ts = length hfs \<Longrightarrow> map2 (\<lambda>hf t. t) hfs ts = ts"
  by (induction ts hfs rule: list_induct2) auto

lemma index_all_ok:
  assumes "\<forall>p \<in> set ivl. \<forall>hf \<in> set hfs. ncols hf = length (snd p)" "length ts = length hfs"
  shows "index_all ivl hfs ts = Inr (map2 (\<lambda>hf t. fill_table hf ivl t) hfs ts)"
  using assms
proof (induction ivl arbitrary: ts)
  case Nil
  then show ?case by (simp add: map2_keep)
next
  case (Cons p ivl)
  obtain i v where p: "p = (i, v)" by (cases p)
  let ?ts' = "map2 (\<lambda>hf t. bucket_append t (signature_of hf v) i) hfs ts"
  have step: "index_vector i v (enumerate 0 hfs) ts = Inr ?ts'"
    using Cons.prems p by (intro index_vector_ok) auto
  have "index_all ivl hfs ?ts' = Inr (map2 (\<lambda>hf t. fill_table hf ivl t) hfs ?ts')"
    using Cons.prems by (intro Cons.IH) auto
  with step p map2_fill_step[OF Cons.prems(2)] show ?case by simp
qed

lemma extend_bucket_append:
  "extend_bucket (bucket_append t s' i s) new
     = extend_bucket (t s) ((if s' = s then [i] else []) @ new)"
  by (simp add: extend_bucket_def bucket_append_def split: option.splits)

lemma fill_table_lookup:
  "fill_table hf ivl t s
     = extend_bucket (t s) (map fst (filter (\<lambda>p. signature_of hf (snd p) = s) ivl))"
proof (induction hf ivl t rule: fill_table.induct)
  case (1 hf t)
  then show ?case by (simp add: extend_bucket_def)
next
  case (2 hf i v rest t)
  show ?case
    unfolding fill_table.simps "2.IH" extend_bucket_append by simp
qed

lemma enumerate_filter_ids:
  "map fst (filter (\<lambda>p. P (snd p)) (enumerate 0 vs)) = filter (\<lambda>i. P (vs ! i)) [0..<length vs]"
proof -
  have "filter (\<lambda>p. P (snd p)) (enumerate 0 vs) = filter ((\<lambda>i. P (vs ! i)) \<circ> fst) (enumerate 0 vs)"
    by (rule filter_cong) (auto simp: enumerate_eq_zip in_set_zip)
  then show ?thesis
    by (simp add: filter_map[symmetric])
qed

lemma custom_indexing_algorithm_ok:
  assumes "rectangular ivs" "\<forall>hf \<in> set hfs. ncols hf = ncols ivs"
  shows "custom_indexing_algorithm ivs hfs
           = Inr (map (\<lambda>hf s. if bucket_ids (rows ivs) hf s = [] then None
                               else Some (bucket_ids (rows ivs) hf s)) hfs)"
proof -
  let ?ivl = "enumerate 0 (rows ivs)"
  let ?ts = "replicate (length hfs) (Map.empty :: hash_table)"
  have dims: "\<forall>p \<in> set ?ivl. \<forall>hf \<in> set hfs. ncols hf = length (snd p)"
    using assms by (auto simp: rectangular_def list_all_iff enumerate_eq_zip dest!: set_zip_rightD)
  have "index_all ?ivl hfs ?ts = Inr (map2 (\<lambda>hf t. fill_table hf ?ivl t) hfs ?ts)"
    using dims by (intro index_all_ok) auto
  also have "map2 (\<lambda>hf t. fill_table hf ?ivl t) hfs ?ts
               = map (\<lambda>hf. fill_table hf ?ivl Map.empty) hfs"
    by (auto simp: list_eq_iff_nth_eq)
  also have "\<dots> = map (\<lambda>hf s. if bucket_ids (rows ivs) hf s = [] then None
                               else Some (bucket_ids (rows ivs) hf s)) hfs"
  proof -
    have "fill_table hf ?ivl Map.empty s
            = (if bucket_ids (rows ivs) hf s = [] then None
               else Some (bucket_ids (rows ivs) hf s))" for hf s
      using enumerate_filter_ids[of "\<lambda>v. signature_of hf v = s" "rows ivs"]
      by (simp add: fill_table_lookup extend_bucket_def bucket_ids_def)
    then show ?thesis by (intro map_cong refl ext)
  qed
  finally show ?thesis by (simp add: custom_indexing_algorithm_def)
qed

lemma bucket_ids_props:
  "sorted_wrt (<) (bucket_ids vs hf s)"
  "set (bucket_ids vs hf s) = {i. i < length vs \<and> signature_of hf (vs ! i) = s}"
  by (auto simp: bucket_ids_def sorted_wrt_filter)

lemma built_index_valid:
  assumes "rectangular ivs" "\<forall>hf \<in> set hfs. ncols hf = ncols ivs"
    and "custom_indexing_algorithm ivs hfs = Inr hts"
  shows "valid_ids (length (rows ivs)) hts"
proof -
  from assms(3) custom_indexing_algorithm_ok[OF assms(1,2)]
  have hts: "hts = map (\<lambda>hf s. if bucket_ids (rows ivs) hf s = [] then None
                               else Some (bucket_ids (rows ivs) hf s)) hfs"
    by simp
  show ?thesis
    unfolding valid_ids_def hts
    by (auto simp: ran_def bucket_ids_props(2) split: if_splits)
qed

section \<open>Lemmas on the candidate search\<close>

lemma gather_Inr:
  "gather q c zs cs = Inr cs' \<Longrightarrow> cs' = cs \<union> (\<Union>z \<in> set zs. bucket_prefix c q z)"
proof (induction q c zs cs rule: gather.induct)
  case (1 q c cs)
  then show ?case by simp
next
  case (2 q c hf t rest cs)
  from "2.prems" obtain s where s: "hash_vector q hf = Inr s"
    by (auto split: sum.splits)
  show ?case
  proof (cases "t s")
    case None
    with s "2.prems" have "gather q c rest cs = Inr cs'" by simp
    from "2.IH"(1)[OF s None this] None s show ?thesis
      by (simp add: bucket_prefix_def)
  next
    case (Some b)
    with s "2.prems" have "gather q c rest (cs \<union> set (take c b)) = Inr cs'" by simp
    from "2.IH"(2)[OF s Some this] Some s show ?thesis
      by (auto simp: bucket_prefix_def)
  qed
qed

lemma gather_ok:
  "\<forall>z \<in> set zs. ncols (fst z) = length q \<Longrightarrow> \<exists>cs'. gather q c zs cs = Inr cs'"
proof (induction q c zs cs rule: gather.induct)
  case (1 q c cs)
  then show ?case by simp
next
  case (2 q c hf t rest cs)
  obtain s where s: "hash_vector q hf = Inr s"
    using "2.prems" hash_vector_returns[of hf q] by auto
  have rest: "\<forall>z \<in> set rest. ncols (fst z) = length q"
    using "2.prems" by simp
  show ?case
  proof (cases "t s")
    case None
    from "2.IH"(1)[OF s None rest] s None show ?thesis by simp
  next
    case (Some b)
    from "2.IH"(2)[OF s Some rest] s Some show ?thesis by simp
  qed
qed

lemma gather_candidate_set:
  assumes "\<And>hf. hf \<in> set hfs \<Longrightarrow> ncols hf = length q"
  shows "gather q (max_candidates ivs) (zip hfs hts) {} = Inr (candidate_set ivs hfs hts q)"
proof -
  have "\<forall>z \<in> set (zip hfs hts). ncols (fst z) = length q"
    using assms by (auto dest: set_zip_leftD)
  from gather_ok[OF this] obtain cs'
    where "gather q (max_candidates ivs) (zip hfs hts) {} = Inr cs'" by blast
  with gather_Inr[OF this] show ?thesis by (simp add: candidate_set_def)
qed

lemma finite_bucket_prefix: "finite (bucket_prefix c q z)"
  by (simp add: bucket_prefix_def split: option.splits sum.splits)

lemma finite_candidate_set: "finite (candidate_set ivs hfs hts q)"
  by (simp add: candidate_set_def finite_bucket_prefix)

lemma candidate_set_member:
  assumes "i \<in> candidate_set ivs hfs hts q"
  shows "\<exists>z \<in> set (zip hfs hts). \<exists>s b. hash_vector q (fst z) = Inr s
           \<and> snd z s = Some b \<and> i \<in> set (take (max_candidates ivs) b)"
proof -
  from assms obtain z where z: "z \<in> set (zip hfs hts)"
    and i: "i \<in> bucket_prefix (max_candidates ivs) q z"
    by (auto simp: candidate_set_def)
  from i obtain s where s: "hash_vector q (fst z) = Inr s"
    by (cases "hash_vector q (fst z)") (auto simp: bucket_prefix_def)
  with i obtain b where "snd z s = Some b" "i \<in> set (take (max_candidates ivs) b)"
    by (cases "snd z s") (auto simp: bucket_prefix_def)
  with z s show ?thesis by blast
qed

lemma candidate_set_valid:
  assumes "valid_ids n hts" "i \<in> candidate_set ivs hfs hts q"
  shows "i < n"
proof -
  from candidate_set_member[OF assms(2)] obtain z s b
    where z: "z \<in> set (zip hfs hts)"
      and b: "snd z s = Some b" and i: "i \<in> set (take (max_candidates ivs) b)"
    by blast
  from z have "snd z \<in> set hts" by (metis prod.collapse set_zip_rightD)
  moreover from b have "b \<in> ran (snd z)" by (auto simp: ran_def)
  moreover from i have "i \<in> set b" by (rule in_set_takeD)
  ultimately show ?thesis using assms(1) by (auto simp: valid_ids_def)
qed

lemma rerank_ok:
  assumes "\<And>i. i \<in> set cl \<Longrightarrow> i < length (rows ivs)" "length q = ncols ivs"
  shows "rerank ops ivs q k cl =
           Inr (map (\<lambda>p. cl ! p)
                  (slice_to k (argsort (map (\<lambda>i. computed_distance ops (rows ivs ! i) q) cl))))"
proof -
  have tr: "take_rows ivs cl = Inr \<lparr>ncols = ncols ivs, rows = map (\<lambda>i. rows ivs ! i) cl\<rparr>"
    using assms(1) by (simp add: take_rows_def list_all_iff)
  let ?cv = "\<lparr>ncols = ncols ivs, rows = map (\<lambda>i. rows ivs ! i) cl\<rparr>"
  have len: "length q = ncols ?cv" using assms(2) by simp
  obtain diff where d: "np_sub ops ?cv q = Inr diff"
    using np_sub_same[OF len] by blast
  from distances_same[OF len d]
  have "norm_axis1 ops diff = map (\<lambda>i. computed_distance ops (rows ivs ! i) q) cl"
    by (simp add: comp_def)
  with tr d show ?thesis by (simp add: rerank_def)
qed


lemma search_query_ok:
  assumes "\<And>hf. hf \<in> set hfs \<Longrightarrow> ncols hf = length q"
    and "length q = ncols ivs"
    and "valid_ids (length (rows ivs)) hts"
  shows "search_query ops ivs hfs hts k q = Inr (ranked ops ivs q k (candidate_set ivs hfs hts q))"
proof -
  let ?cs = "candidate_set ivs hfs hts q"
  have "\<And>i. i \<in> set (list_of_set ?cs) \<Longrightarrow> i < length (rows ivs)"
    using candidate_set_valid[OF assms(3)] list_of_set_props[OF finite_candidate_set]
    by blast
  from rerank_ok[OF this assms(2)] gather_candidate_set[OF assms(1)]
  show ?thesis by (simp add: search_query_def ranked_def)
qed

lemma search_query_empty:
  assumes "gather q (max_candidates ivs) (zip hfs hts) {} = Inr {}"
  shows "search_query ops ivs hfs hts k q = Inr []"
  using assms by (simp add: search_query_def)

lemma search_loop_ok:
  assumes "rectangular qvs" "ncols qvs = ncols ivs"
    and "\<forall>hf \<in> set hfs. ncols hf = ncols ivs"
    and "valid_ids (length (rows ivs)) hts"
  shows "collect (map (search_query ops ivs hfs hts k) (rows qvs))
           = Inr (map (\<lambda>q. ranked ops ivs q k (candidate_set ivs hfs hts q)) (rows qvs))"
proof (rule collect_map_Inr)
  fix q assume "q \<in> set (rows qvs)"
  then have l: "length q = ncols ivs"
    using assms(1,2) by (auto simp: rectangular_def list_all_iff)
  have "\<And>hf. hf \<in> set hfs \<Longrightarrow> ncols hf = length q"
    using assms(3) l by simp
  from search_query_ok[OF this l assms(4)]
  show "search_query ops ivs hfs hts k q = Inr (ranked ops ivs q k (candidate_set ivs hfs hts q))" .
qed

lemma custom_index_search_ok:
  assumes "rectangular qvs" "ncols qvs = ncols ivs"
    and "\<forall>hf \<in> set hfs. ncols hf = ncols ivs"
    and "valid_ids (length (rows ivs)) hts"
  shows "custom_index_search ops qvs ivs hfs hts k
           = np_array (map (\<lambda>q. ranked ops ivs q k (candidate_set ivs hfs hts q)) (rows qvs))"
  by (simp add: custom_index_search_def search_loop_ok[OF assms])

lemma ranked_distinct_subset:
  assumes "finite cs"
  shows "distinct (ranked ops ivs q k cs) \<and> set (ranked ops ivs q k cs) \<subseteq> cs"
proof (cases "cs = {}")
  case True
  then show ?thesis by (simp add: ranked_def)
next
  case False
  let ?cl = "list_of_set cs"
  let ?ps = "argsort (map (\<lambda>i. computed_distance ops (rows ivs ! i) q) ?cl)"
  obtain n where n: "slice_to k ?ps = take n ?ps"
    using slice_to_is_take by blast
  have cl: "set ?cl = cs" "distinct ?cl"
    using list_of_set_props[OF assms] by simp_all
  have tk: "set (take n ?ps) \<subseteq> {..<length ?cl}"
    using set_take_subset[of n ?ps] by (simp add: argsort_set)
  have inj: "inj_on (\<lambda>p. ?cl ! p) {..<length ?cl}"
    using cl(2) by (auto simp: inj_on_def nth_eq_iff_index_eq)
  have "distinct (map (\<lambda>p. ?cl ! p) (take n ?ps))"
    using tk by (auto simp: distinct_map argsort_distinct intro: inj_on_subset[OF inj])
  moreover have "set (map (\<lambda>p. ?cl ! p) (take n ?ps)) \<subseteq> cs"
  proof -
    have "?cl ! p \<in> set ?cl" if "p \<in> set (take n ?ps)" for p
      using that tk by (intro nth_mem) auto
    then show ?thesis unfolding cl(1) by auto
  qed
  ultimately show ?thesis using False n by (simp add: ranked_def)
qed


text \<open>
  An empty candidate set beside a non-empty result: the results of the loop have two
  lengths, and packing them raises.
\<close>

lemma empty_beside_nonempty_raises:
  assumes "collect (map (search_query ops ivs hfs hts k) (rows qvs)) = Inr rs"
    and "j < length (rows qvs)"
    and "gather (rows qvs ! j) (max_candidates ivs) (zip hfs hts) {} = Inr {}"
    and "i < length (rows qvs)" and "rs ! i \<noteq> []"
  shows "custom_index_search ops qvs ivs hfs hts k = Inl ValueError"
proof -
  from collect_Inr_nth[OF assms(1)] assms(2)
  have len: "length rs = length (rows qvs)"
    and "search_query ops ivs hfs hts k (rows qvs ! j) = Inr (rs ! j)"
    by simp_all
  with search_query_empty[OF assms(3), of ops k] have "rs ! j = []" by simp
  with assms(5) have "length (rs ! i) \<noteq> length (rs ! j)" by simp
  from np_array_ragged[OF _ _ this] assms(2,4) len
  have "np_array rs = Inl ValueError" by simp
  with assms(1) show ?thesis by (simp add: custom_index_search_def)
qed

section \<open>The sample data evaluated\<close>

lemma sqrt_16: "sqrt 16 = 4"
  using real_sqrt_abs[of 4] by simp

lemma tiny_pos: "0 < tiny" "\<not> tiny < 0" "tiny \<noteq> 0"
  by (simp_all add: tiny_def)

lemma fl64_tiny: "fl64 tiny = tiny"
  unfolding tiny_def using fl64_dyadic[of 1 600] by simp

lemma fl64_tiny_square: "fl64 (tiny * tiny) = 0"
proof -
  have sq: "tiny * tiny = 1 / 2 ^ 1200"
    by (simp add: tiny_def flip: power_add)
  have "\<bar>tiny * tiny\<bar> < 2 powr (- 1022)"
    unfolding sq by (simp add: powr_minus_divide)
  then have "fl64 (tiny * tiny) = of_int (round_half_even (tiny * tiny * 2 ^ 1074)) / 2 ^ 1074"
    by (rule fl64_subnormal)
  moreover have "round_half_even (tiny * tiny * 2 ^ 1074) = 0"
    unfolding sq by (rule round_half_even_small) simp
  ultimately show ?thesis by simp
qed

lemmas eval_simps =
  hash_vector_def np_dot_def inner_prod_def bucket_append_def np_sub_def norm_axis1_def
  norm64_def binary64_def argsort_def slice_to_def take_rows_def list_of_set_def
  max_candidates_def rerank_def search_query_def np_array_def upt_conv_Cons
  eval_nat_numeral insert_Diff_if fl64_zero fl64_one fl64_neg_one fl64_numeral
  fl64_neg_numeral sqrt_16 tiny_pos fl64_tiny fl64_tiny_square

lemma sample_build:
  "custom_indexing_algorithm sample_index sample_family = Inr sample_tables"
  by (simp add: custom_indexing_algorithm_def sample_index_def sample_family_def
      sample_tables_def eval_simps)

lemma sample_search:
  "custom_index_search binary64 sample_queries sample_index sample_family sample_tables 1
     = Inr [[1], [2]]"
  by (simp add: custom_index_search_def sample_queries_def sample_index_def sample_family_def
      sample_tables_def eval_simps)

text \<open>
  The same batch with \<open>k = 2\<close>: the second query has one candidate only, the results
  have lengths 2 and 1, and the search raises.
\<close>

lemma sample_search_ragged:
  "custom_index_search binary64 sample_queries sample_index sample_family sample_tables 2
     = Inl ValueError"
  by (simp add: custom_index_search_def sample_queries_def sample_index_def sample_family_def
      sample_tables_def eval_simps)

lemma sample_exhaustive:
  "semi_optimized_exhaustive_search binary64 sample_index sample_query 2 = Inr [[1, 0]]"
  by (simp add: semi_optimized_exhaustive_search_def exhaustive_query_def
      sample_index_def sample_query_def eval_simps)

lemma stray_gather:
  "gather (rows stray_queries ! 1) (max_candidates sample_index)
     (zip sample_family sample_tables) {} = Inr {}"
  by (simp add: stray_queries_def sample_index_def sample_family_def sample_tables_def
      eval_simps)

lemma stray_results:
  "collect (map (search_query binary64 sample_index sample_family sample_tables 2)
              (rows stray_queries)) = Inr [[1, 0], []]"
  by (simp add: stray_queries_def sample_index_def sample_family_def
      sample_tables_def eval_simps)




lemma tiny_exhaustive:
  "semi_optimized_exhaustive_search binary64 tiny_index tiny_queries 2 = Inr [[0, 1]]"
  by (simp add: semi_optimized_exhaustive_search_def exhaustive_query_def
      tiny_index_def tiny_queries_def eval_simps)

lemma tiny_distances:
  "euclidean (rows tiny_index ! 1) (rows tiny_queries ! 0)
     < euclidean (rows tiny_index ! 0) (rows tiny_queries ! 0)"
  by (simp add: euclidean_def tiny_index_def tiny_queries_def tiny_pos)

lemma sample_rectangular:
  "rectangular sample_queries" "rectangular sample_index"
  "ncols sample_queries = ncols sample_index"
  "\<forall>hf \<in> set sample_family. ncols hf = ncols sample_index"
  by (simp_all add: rectangular_def sample_queries_def sample_index_def sample_family_def)

lemma sample_valid: "valid_ids (length (rows sample_index)) sample_tables"
  using sample_rectangular(2,4) sample_build by (rule built_index_valid)

section \<open>The claims\<close>




text \<open>
  Claim C2, amended. For a collection of \<open>N\<close> vectors, a batch of queries of the same
  width, \<open>k \<ge> 1\<close>, and any floating-point subtraction and norm, the exhaustive search
  returns, for every query, exactly \<open>min k N\<close> distinct index ids in non-decreasing
  order of the computed distance to the query (the norm of the difference, as the
  floating-point operations deliver it).
\<close>

theorem exhaustive_search_topk:
  assumes "rectangular query_vectors"
    and "ncols query_vectors = ncols index_vectors"
    and "1 \<le> k"
  shows "\<exists>res. semi_optimized_exhaustive_search ops index_vectors query_vectors k = Inr res
           \<and> length res = length (rows query_vectors)
           \<and> (\<forall>j < length (rows query_vectors).
                 length (res ! j) = min (nat k) (length (rows index_vectors))
               \<and> distinct (res ! j)
               \<and> set (res ! j) \<subseteq> {..<length (rows index_vectors)}
               \<and> sorted (map (\<lambda>i. computed_distance ops (rows index_vectors ! i)
                                      (rows query_vectors ! j))
                            (res ! j)))"
proof -
  let ?ds = "\<lambda>q. map (\<lambda>r. computed_distance ops r q) (rows index_vectors)"
  let ?g = "\<lambda>q. take (nat k) (argsort (?ds q))"
  have len: "length q = ncols index_vectors" if "q \<in> set (rows query_vectors)" for q
    using that assms(1,2) by (auto simp: rectangular_def list_all_iff)
  have loop: "collect (map (exhaustive_query ops index_vectors k) (rows query_vectors))
              = Inr (map ?g (rows query_vectors))"
    by (rule collect_map_Inr) (use len assms(3) in \<open>simp add: exhaustive_query_ok\<close>)
  have "\<forall>r \<in> set (map ?g (rows query_vectors)).
          length r = min (nat k) (length (rows index_vectors))"
    by (auto simp: argsort_length)
  from np_array_uniform[OF this] loop
  have eq: "semi_optimized_exhaustive_search ops index_vectors query_vectors k
              = Inr (map ?g (rows query_vectors))"
    by (simp add: semi_optimized_exhaustive_search_def)
  have props: "length (?g q) = min (nat k) (length (rows index_vectors))
      \<and> distinct (?g q) \<and> set (?g q) \<subseteq> {..<length (rows index_vectors)}
      \<and> sorted (map (\<lambda>i. computed_distance ops (rows index_vectors ! i) q) (?g q))" for q
  proof -
    have s: "set (?g q) \<subseteq> {..<length (rows index_vectors)}"
      using set_take_subset[of "nat k" "argsort (?ds q)"] by (simp add: argsort_set)
    have "map (\<lambda>i. computed_distance ops (rows index_vectors ! i) q) (?g q)
            = map (\<lambda>i. ?ds q ! i) (?g q)"
      using s by (intro map_cong) auto
    then have "sorted (map (\<lambda>i. computed_distance ops (rows index_vectors ! i) q) (?g q))"
      using take_argsort_sorted[of "?ds q" "nat k"] by (simp only:)
    then show ?thesis
      using s by (simp add: argsort_length argsort_distinct min.commute)
  qed
  show ?thesis
    using eq props by simp
qed

text \<open>
  C2 on the sample collection with doubles, the query \<open>[3, 2]\<close> and \<open>k = 2\<close>.
\<close>

theorem exhaustive_search_topk_witness:
  "semi_optimized_exhaustive_search binary64 sample_index sample_query 2 = Inr [[1, 0]]
   \<and> (\<exists>res. semi_optimized_exhaustive_search binary64 sample_index sample_query 2 = Inr res
           \<and> length res = length (rows sample_query)
           \<and> (\<forall>j < length (rows sample_query).
                 length (res ! j) = min (nat 2) (length (rows sample_index))
               \<and> distinct (res ! j)
               \<and> set (res ! j) \<subseteq> {..<length (rows sample_index)}
               \<and> sorted (map (\<lambda>i. computed_distance binary64 (rows sample_index ! i)
                                      (rows sample_query ! j))
                            (res ! j))))"
proof (rule conjI)
  show "semi_optimized_exhaustive_search binary64 sample_index sample_query 2 = Inr [[1, 0]]"
    by (rule sample_exhaustive)
next
  have "rectangular sample_query" "ncols sample_query = ncols sample_index"
    by (simp_all add: rectangular_def sample_query_def sample_index_def)
  then show "\<exists>res. semi_optimized_exhaustive_search binary64 sample_index sample_query 2
                     = Inr res
           \<and> length res = length (rows sample_query)
           \<and> (\<forall>j < length (rows sample_query).
                 length (res ! j) = min (nat 2) (length (rows sample_index))
               \<and> distinct (res ! j)
               \<and> set (res ! j) \<subseteq> {..<length (rows sample_index)}
               \<and> sorted (map (\<lambda>i. computed_distance binary64 (rows sample_index ! i)
                                      (rows sample_query ! j))
                            (res ! j)))"
    by (rule exhaustive_search_topk) simp
qed

text \<open>
  C2 as it was stated sorts by the true distance. With doubles the two vectors
  \<open>[2^-600, 0]\<close> and \<open>[0, 0]\<close> both get the computed distance 0 to the query
  \<open>[0, 0]\<close>, and the search returns the farther one first.
\<close>

theorem exhaustive_search_true_distance_counterexample:
  "semi_optimized_exhaustive_search binary64 tiny_index tiny_queries 2 = Inr [[0, 1]]
   \<and> euclidean (rows tiny_index ! 1) (rows tiny_queries ! 0)
       < euclidean (rows tiny_index ! 0) (rows tiny_queries ! 0)"
  using tiny_exhaustive tiny_distances by (intro conjI)

text \<open>
  Claim C3, amended. For every positive dimensionality \<open>D\<close> the generator returns
  \<open>F = 7\<close> rectangular matrices of shape \<open>(H, D)\<close> with \<open>H = int (D ** 0.65)\<close> when
  \<open>D < 150\<close>, and \<open>F = 12\<close> matrices with \<open>H = int (D ** 0.6)\<close> otherwise, the power
  being the one of doubles: the exponent is the double of the literal, the power is
  rounded to a double and then truncated. For \<open>D = 100\<close> these are 7 functions of
  width 19, for \<open>D = 200\<close> they are 12 functions of width 24, and for \<open>D = 243\<close> and
  \<open>D = 1024\<close> the widths are 26 and 63, one less than \<open>floor (243^(3/5)) = 27\<close> and
  \<open>floor (1024^(3/5)) = 64\<close>.
\<close>

theorem hash_family_shape:
  assumes "0 < d"
  shows "\<exists>fam g'. generate_random_hash_functions d g = Inr (fam, g')
           \<and> map shape fam
               = replicate (if d < 150 then 7 else 12)
                   (nat \<lfloor>fl64 (fl64 (real_of_int d)
                                   powr (if d < 150 then float_065 else float_06))\<rfloor>, nat d)
           \<and> list_all rectangular fam
           \<and> (d = 100 \<longrightarrow> map shape fam = replicate 7 (19, 100))
           \<and> (d = 200 \<longrightarrow> map shape fam = replicate 12 (24, 200))
           \<and> (d = 243 \<longrightarrow> map shape fam = replicate 12 (26, 243))
           \<and> (d = 1024 \<longrightarrow> map shape fam = replicate 12 (63, 1024))"
proof -
  let ?n = "if d < 150 then 7 else 12 :: nat"
  let ?h = "nat \<lfloor>fl64 (fl64 (real_of_int d) powr (if d < 150 then float_065 else float_06))\<rfloor>"
  have hp: "hash_params d = Inr (?n, ?h)"
    using assms hash_params_pos[of d] by simp
  obtain fam g' where f: "randn_list ?n ?h (nat d) g = (fam, g')"
    by (cases "randn_list ?n ?h (nat d) g")
  have gen: "generate_random_hash_functions d g = Inr (fam, g')"
    using generate_params[OF hp] f by simp
  have sh: "map shape fam = replicate ?n (?h, nat d)" "list_all rectangular fam"
    using randn_list_shape[of ?n ?h "nat d" g] f by simp_all
  have a: "map shape fam = replicate 7 (19, 100)" if "d = 100"
    using hp sh(1) hash_params_100 that by simp
  have b: "map shape fam = replicate 12 (24, 200)" if "d = 200"
    using hp sh(1) hash_params_200 that by simp
  have c: "map shape fam = replicate 12 (26, 243)" if "d = 243"
    using hp sh(1) hash_params_243 that by simp
  have e: "map shape fam = replicate 12 (63, 1024)" if "d = 1024"
    using hp sh(1) hash_params_1024 that by simp
  from gen sh a b c e show ?thesis by blast
qed

text \<open>
  C3 at \<open>D = 243\<close>.
\<close>

theorem hash_family_shape_witness:
  "\<exists>fam g'. generate_random_hash_functions 243 sample_rng = Inr (fam, g')
      \<and> map shape fam = replicate 12 (26, 243)"
  using hash_family_shape[of 243 sample_rng] by auto

text \<open>
  C3 as it was stated gives width 21 for \<open>D = 100\<close>; the generator gives 19.
\<close>

theorem hash_width_100_counterexample:
  "map_sum id (map shape \<circ> fst) (generate_random_hash_functions 100 sample_rng)
     = Inr (replicate 7 (19, 100))
   \<and> map_sum id (map shape \<circ> fst) (generate_random_hash_functions 100 sample_rng)
     \<noteq> Inr (replicate 7 (21, 100))"
proof -
  have "map_sum id (map shape \<circ> fst) (generate_random_hash_functions 100 sample_rng)
          = Inr (replicate 7 (19, 100))"
    using generate_params[OF hash_params_100, of sample_rng]
      randn_list_shape[of 7 19 100 sample_rng] by simp
  then show ?thesis by simp
qed

text \<open>
  Claim C4, amended. The generator has no check of its argument. A negative \<open>D\<close> fails
  with the TypeError that \<^verbatim>\<open>int\<close> raises on the complex power; \<open>D = 0\<close> is accepted
  and gives 7 matrices of shape \<open>(0, 0)\<close>, the generator left as it was.
\<close>

theorem nonpositive_dimension:
  "(d < 0 \<longrightarrow> generate_random_hash_functions d g = Inl TypeError)
 \<and> (d = 0 \<longrightarrow> generate_random_hash_functions d g
                 = Inr (replicate 7 \<lparr>ncols = 0, rows = []\<rparr>, g))"
  using generate_params[OF hash_params_0, of g]
  by (auto simp: generate_random_hash_functions_def hash_params_neg randn_list_empty)

text \<open>
  C4 at \<open>D = -5\<close>.
\<close>

theorem nonpositive_dimension_witness:
  "generate_random_hash_functions (- 5) sample_rng = Inl TypeError"
  using nonpositive_dimension[of "- 5" sample_rng] by simp

text \<open>
  C4 as it was stated has \<open>D = 0\<close> fail; the generator returns a family there.
\<close>

theorem zero_dimension_counterexample:
  "generate_random_hash_functions 0 sample_rng
     = Inr (replicate 7 \<lparr>ncols = 0, rows = []\<rparr>, sample_rng)"
  using generate_params[OF hash_params_0, of sample_rng] by (simp add: randn_list_empty)

text \<open>
  Claim C5, amended. For ground-truth and approximate batches of the same length, with
  at least one query, and \<open>k \<ge> 1\<close>, the recall evaluator returns the mean over the
  queries of \<open>|set (approx[i]) \<inter> set (truth[i])| / k\<close> as doubles compute it (every
  quotient, every partial sum from left to right and the final division rounded to a
  double), rounded to three decimal digits: the double nearest to \<open>z/1000\<close>, where
  \<open>z/1000\<close> is the multiple of \<open>1/1000\<close> nearest to the computed mean, a tie going
  to the even \<open>z\<close>, hence within \<open>1/2000\<close> of it. The intersection is one of sets, so
  a repeated id counts once, and a query with an empty \<open>approx[i]\<close> contributes 0.
\<close>

theorem recall_is_rounded_mean:
  assumes "length nn_gt = length ann" and "ann \<noteq> []" and "1 \<le> k"
  shows "let terms = map (\<lambda>i. fl64 (of_nat (card (set (ann ! i) \<inter> set (nn_gt ! i))) / of_int k))
                       [0..<length ann];
             mean = fl64 (float_sum terms / of_nat (length ann));
             z = round_half_even (mean * 1000)
         in compute_recall_at_k nn_gt ann k = Inr (fl64 (of_int z / 1000))
          \<and> \<bar>of_int z / 1000 - mean\<bar> \<le> 1 / 2000
          \<and> (\<forall>i < length ann. ann ! i = [] \<longrightarrow> recall_term nn_gt ann k i = Inr 0)"
proof -
  have a: "length ann \<le> length nn_gt" "k \<noteq> 0" using assms by simp_all
  have "recall_term nn_gt ann k i = Inr 0" if "i < length ann" "ann ! i = []" for i
    using that assms(1) a(2) by (simp add: recall_term_def fl64_zero)
  then show ?thesis
    unfolding Let_def
    using compute_recall_ok[OF a assms(2)] round3_close
    by (simp add: py_round_def)
qed

text \<open>
  C5 on two queries with \<open>k = 4\<close>: the first approximate result repeats the id 3, its
  only hit, the second is empty; the mean \<open>1/8\<close> is reported as 0.125.
\<close>

theorem recall_is_rounded_mean_witness:
  "compute_recall_at_k [[1 :: nat, 2, 3, 4], [5, 6, 7, 8]] [[3, 3, 9, 9], []] 4 = Inr (1 / 8)
   \<and> recall_term [[1 :: nat, 2, 3, 4], [5, 6, 7, 8]] [[3, 3, 9, 9], []] 4 1 = Inr 0"
  using recall_is_rounded_mean[of "[[1 :: nat, 2, 3, 4], [5, 6, 7, 8]]" "[[3, 3, 9, 9], []]" 4]
  by (simp add: Let_def float_sum_def round_half_even_def upt_conv_Cons fl64_zero fl64_quarter)

text \<open>
  C5 as it was stated covers batches with no query; the evaluator divides by the number
  of queries and raises there.
\<close>

theorem recall_on_empty_batch_counterexample:
  "compute_recall_at_k ([] :: nat list list) [] 1 = Inl ZeroDivisionError"
  by (simp add: compute_recall_at_k_def)

text \<open>
  Claim C6, amended. The recall evaluator has no check of its arguments; it fails where
  the computation itself does. With \<open>k \<noteq> 0\<close> and fewer ground-truth rows than
  approximate ones it raises IndexError; with \<open>k = 0\<close> it always raises, a
  ZeroDivisionError when the ground truth is at least as long as the approximate batch;
  with no approximate row it raises ZeroDivisionError. In every other case, a ground
  truth longer than the approximate batch and a negative \<open>k\<close> included, it returns a
  score.
\<close>

theorem recall_failure_cases:
  "(length nn_gt < length ann \<and> k \<noteq> 0 \<longrightarrow> compute_recall_at_k nn_gt ann k = Inl IndexError)
 \<and> (k = 0 \<and> length ann \<le> length nn_gt \<longrightarrow>
        compute_recall_at_k nn_gt ann k = Inl ZeroDivisionError)
 \<and> (k = 0 \<longrightarrow> (\<exists>e. compute_recall_at_k nn_gt ann k = Inl e))
 \<and> (ann = [] \<longrightarrow> compute_recall_at_k nn_gt ann k = Inl ZeroDivisionError)
 \<and> (ann \<noteq> [] \<and> k \<noteq> 0 \<and> length ann \<le> length nn_gt \<longrightarrow>
        (\<exists>score. compute_recall_at_k nn_gt ann k = Inr score))"
  using compute_recall_short_truth[of nn_gt ann k] compute_recall_k0[of ann nn_gt]
    compute_recall_k0_fails[of nn_gt ann] compute_recall_empty[of nn_gt k]
    compute_recall_ok[of ann nn_gt k]
  by (intro conjI impI) (simp_all)

text \<open>
  C6 at a ground truth that is too short, and at \<open>k = 0\<close>.
\<close>

theorem recall_failure_cases_witness:
  "compute_recall_at_k [[1 :: nat]] [[1], [2]] 1 = Inl IndexError
   \<and> compute_recall_at_k [[1 :: nat]] [[1]] 0 = Inl ZeroDivisionError"
  using recall_failure_cases[of "[[1 :: nat]]" "[[1], [2]]" 1]
    recall_failure_cases[of "[[1 :: nat]]" "[[1]]" 0]
  by simp

text \<open>
  C6 as it was stated has a length mismatch and a non-positive \<open>k\<close> fail; a longer
  ground truth and \<open>k = -1\<close> both give a score.
\<close>

theorem recall_unchecked_arguments_counterexample:
  "compute_recall_at_k [[1 :: nat], [2]] [[1]] 1 = Inr 1
   \<and> compute_recall_at_k [[1 :: nat]] [[1]] (- 1) = Inr (- 1)"
  by (simp add: compute_recall_at_k_def recall_term_def py_round_def round_half_even_def
      float_sum_def Let_def fl64_one fl64_neg_one)

text \<open>
  Claim C7. Under the conditions of C1 and for any \<open>k\<close>: the candidate set the loop
  gathers for a query is the union, over the pairs of a hash function and its table,
  of the first \<open>C\<close> ids of the bucket whose key is the signature that
  \<^verbatim>\<open>hash_vector\<close> returns for the query under that function, with \<open>C = 1000\<close> when
  \<open>D < 150\<close> and \<open>C = 1400\<close> otherwise, a missing key giving nothing. Every id of the
  query's result belongs to such a prefix, and the result has no duplicate. These
  results are what the search returns, whenever it returns.
\<close>

theorem results_from_colliding_buckets:
  assumes "rectangular query_vectors"
    and "ncols query_vectors = ncols index_vectors"
    and "\<forall>hf \<in> set hash_functions. ncols hf = ncols index_vectors"
    and "valid_ids (length (rows index_vectors)) hash_tables"
  shows "\<exists>rs. length rs = length (rows query_vectors)
           \<and> custom_index_search ops query_vectors index_vectors hash_functions hash_tables k
               = np_array rs
           \<and> (\<forall>res. custom_index_search ops query_vectors index_vectors hash_functions
                       hash_tables k = Inr res \<longrightarrow> res = rs)
           \<and> (\<forall>j < length (rows query_vectors).
                 search_query ops index_vectors hash_functions hash_tables k
                   (rows query_vectors ! j) = Inr (rs ! j)
               \<and> gather (rows query_vectors ! j)
                   (if ncols index_vectors < 150 then 1000 else 1400)
                   (zip hash_functions hash_tables) {}
                   = Inr (\<Union>z \<in> set (zip hash_functions hash_tables).
                            case hash_vector (rows query_vectors ! j) (fst z) of
                              Inl e \<Rightarrow> {}
                            | Inr s \<Rightarrow>
                                (case snd z s of
                                   None \<Rightarrow> {}
                                 | Some b \<Rightarrow>
                                     set (take (if ncols index_vectors < 150 then 1000 else 1400)
                                            b)))
               \<and> distinct (rs ! j)
               \<and> (\<forall>i \<in> set (rs ! j).
                     \<exists>z \<in> set (zip hash_functions hash_tables). \<exists>s b.
                        hash_vector (rows query_vectors ! j) (fst z) = Inr s
                      \<and> snd z s = Some b
                      \<and> i \<in> set (take (if ncols index_vectors < 150 then 1000 else 1400) b)))"
proof -
  let ?c = "if ncols index_vectors < 150 then 1000 else 1400 :: nat"
  let ?cs = "candidate_set index_vectors hash_functions hash_tables"
  let ?rs = "map (\<lambda>q. ranked ops index_vectors q k (?cs q)) (rows query_vectors)"
  let ?run = "custom_index_search ops query_vectors index_vectors hash_functions hash_tables k"
  have c: "max_candidates index_vectors = ?c" by (simp add: max_candidates_def)
  have run: "?run = np_array ?rs"
    using assms by (rule custom_index_search_ok)
  have uniq: "res = ?rs" if "?run = Inr res" for res
    using that run np_array_Inr[of ?rs res] by simp
  have each: "search_query ops index_vectors hash_functions hash_tables k
                   (rows query_vectors ! j) = Inr (?rs ! j)
               \<and> gather (rows query_vectors ! j) ?c (zip hash_functions hash_tables) {}
                   = Inr (\<Union>z \<in> set (zip hash_functions hash_tables).
                            case hash_vector (rows query_vectors ! j) (fst z) of
                              Inl e \<Rightarrow> {}
                            | Inr s \<Rightarrow>
                                (case snd z s of None \<Rightarrow> {} | Some b \<Rightarrow> set (take ?c b)))
               \<and> distinct (?rs ! j)
               \<and> (\<forall>i \<in> set (?rs ! j).
                     \<exists>z \<in> set (zip hash_functions hash_tables). \<exists>s b.
                        hash_vector (rows query_vectors ! j) (fst z) = Inr s
                      \<and> snd z s = Some b
                      \<and> i \<in> set (take ?c b))"
    if j: "j < length (rows query_vectors)" for j
  proof -
    let ?q = "rows query_vectors ! j"
    have "?q \<in> set (rows query_vectors)" using j by simp
    then have l: "length ?q = ncols index_vectors"
      using assms(1,2) by (auto simp: rectangular_def list_all_iff)
    then have dims: "\<And>hf. hf \<in> set hash_functions \<Longrightarrow> ncols hf = length ?q"
      using assms(3) by simp
    have g: "gather ?q ?c (zip hash_functions hash_tables) {}
               = Inr (\<Union>z \<in> set (zip hash_functions hash_tables).
                        case hash_vector ?q (fst z) of
                          Inl e \<Rightarrow> {}
                        | Inr s \<Rightarrow>
                            (case snd z s of None \<Rightarrow> {} | Some b \<Rightarrow> set (take ?c b)))"
      using gather_candidate_set[OF dims, where ivs = index_vectors and hts = hash_tables]
      unfolding c candidate_set_def bucket_prefix_def .
    have r: "?rs ! j = ranked ops index_vectors ?q k (?cs ?q)" using j by simp
    have sq: "search_query ops index_vectors hash_functions hash_tables k ?q = Inr (?rs ! j)"
      unfolding r using dims l assms(4) by (rule search_query_ok)
    have ds: "distinct (?rs ! j)" "set (?rs ! j) \<subseteq> ?cs ?q"
      unfolding r using ranked_distinct_subset[OF finite_candidate_set] by blast+
    have "\<exists>z \<in> set (zip hash_functions hash_tables). \<exists>s b.
              hash_vector ?q (fst z) = Inr s
            \<and> snd z s = Some b \<and> i \<in> set (take ?c b)"
      if "i \<in> set (?rs ! j)" for i
    proof -
      from that ds(2) have "i \<in> ?cs ?q" by blast
      from candidate_set_member[OF this] show ?thesis unfolding c .
    qed
    with sq g ds(1) show ?thesis by blast
  qed
  have len: "length ?rs = length (rows query_vectors)" by simp
  from len run uniq each show ?thesis
    by (intro exI[of _ ?rs] conjI allI impI) blast+
qed

text \<open>
  C7 on the sample data.
\<close>

theorem results_from_colliding_buckets_witness:
  "custom_index_search binary64 sample_queries sample_index sample_family sample_tables 1
     = Inr [[1], [2]]
   \<and> (\<exists>rs. length rs = length (rows sample_queries)
           \<and> custom_index_search binary64 sample_queries sample_index sample_family
               sample_tables 1 = np_array rs
           \<and> (\<forall>res. custom_index_search binary64 sample_queries sample_index sample_family
                       sample_tables 1 = Inr res \<longrightarrow> res = rs)
           \<and> (\<forall>j < length (rows sample_queries).
                 search_query binary64 sample_index sample_family sample_tables 1
                   (rows sample_queries ! j) = Inr (rs ! j)
               \<and> gather (rows sample_queries ! j)
                   (if ncols sample_index < 150 then 1000 else 1400)
                   (zip sample_family sample_tables) {}
                   = Inr (\<Union>z \<in> set (zip sample_family sample_tables).
                            case hash_vector (rows sample_queries ! j) (fst z) of
                              Inl e \<Rightarrow> {}
                            | Inr s \<Rightarrow>
                                (case snd z s of
                                   None \<Rightarrow> {}
                                 | Some b \<Rightarrow>
                                     set (take (if ncols sample_index < 150 then 1000 else 1400)
                                            b)))
               \<and> distinct (rs ! j)
               \<and> (\<forall>i \<in> set (rs ! j).
                     \<exists>z \<in> set (zip sample_family sample_tables). \<exists>s b.
                        hash_vector (rows sample_queries ! j) (fst z) = Inr s
                      \<and> snd z s = Some b
                      \<and> i \<in> set (take (if ncols sample_index < 150 then 1000 else 1400) b))))"
proof (rule conjI)
  show "custom_index_search binary64 sample_queries sample_index sample_family sample_tables 1
          = Inr [[1], [2]]"
    by (rule sample_search)
qed (rule results_from_colliding_buckets[OF sample_rectangular(1,3,4) sample_valid])

text \<open>
  Claim C8 fails on the code. The sample index is searched with \<open>k = 2\<close> for the
  queries \<open>[3, 2]\<close> and \<open>[-1, -1]\<close>. The second query matches no bucket: its
  candidate set is empty and its pass through the loop appends the empty result,
  beside the result \<open>[1, 0]\<close> of the first query. The last statement of the search
  then packs results of lengths 2 and 0 and raises ValueError: the search returns
  nothing for the batch, and nothing is left for the recall evaluator to score.
\<close>

theorem empty_candidates_batch_raises:
  "gather (rows stray_queries ! 1) (max_candidates sample_index)
     (zip sample_family sample_tables) {} = Inr {}
   \<and> search_query binary64 sample_index sample_family sample_tables 2
       (rows stray_queries ! 1) = Inr []
   \<and> collect (map (search_query binary64 sample_index sample_family sample_tables 2)
                (rows stray_queries)) = Inr [[1, 0], []]
   \<and> custom_index_search binary64 stray_queries sample_index sample_family sample_tables 2
       = Inl ValueError"
proof -
  have j: "1 < length (rows stray_queries)" "0 < length (rows stray_queries)"
    by (simp_all add: stray_queries_def)
  have "[[1, 0], []] ! 0 \<noteq> ([] :: nat list)" by simp
  from empty_beside_nonempty_raises[OF stray_results j(1) stray_gather j(2) this]
    search_query_empty[OF stray_gather, of binary64 2] stray_gather stray_results
  show ?thesis by (intro conjI)
qed

text \<open>
  Claim C9. For a rectangular collection of \<open>N\<close> vectors and \<open>F\<close> hash functions of
  its width, the builder returns \<open>F\<close> tables. In each of them every id below \<open>N\<close> is in
  the bucket of exactly one key, no bucket is empty, and the bucket of a key lists the
  ids of the vectors with that signature in the order of the loop, which is strictly
  ascending.
\<close>

theorem index_partitions_ids:
  assumes "rectangular index_vectors"
    and "\<forall>hf \<in> set hash_functions. ncols hf = ncols index_vectors"
  shows "\<exists>hash_tables. custom_indexing_algorithm index_vectors hash_functions = Inr hash_tables
           \<and> length hash_tables = length hash_functions
           \<and> (\<forall>j < length hash_functions.
                 (\<forall>i < length (rows index_vectors).
                     \<exists>!s. \<exists>b. (hash_tables ! j) s = Some b \<and> i \<in> set b)
               \<and> (\<forall>s b. (hash_tables ! j) s = Some b \<longrightarrow>
                     b \<noteq> []
                   \<and> b = filter (\<lambda>i. hash_vector (rows index_vectors ! i) (hash_functions ! j) = Inr s)
                         [0..<length (rows index_vectors)]
                   \<and> sorted_wrt (<) b))"
proof -
  let ?vs = "rows index_vectors"
  let ?tab = "\<lambda>hf s. if bucket_ids ?vs hf s = [] then None else Some (bucket_ids ?vs hf s)"
  have run: "custom_indexing_algorithm index_vectors hash_functions
               = Inr (map ?tab hash_functions)"
    using assms by (rule custom_indexing_algorithm_ok)
  have each: "(\<forall>i < length ?vs. \<exists>!s. \<exists>b. ?tab hf s = Some b \<and> i \<in> set b)
            \<and> (\<forall>s b. ?tab hf s = Some b \<longrightarrow>
                   b \<noteq> []
                 \<and> b = filter (\<lambda>i. hash_vector (?vs ! i) hf = Inr s) [0..<length ?vs]
                 \<and> sorted_wrt (<) b)"
    if hf: "hf \<in> set hash_functions" for hf
  proof -
    have hv: "hash_vector (?vs ! i) hf = Inr s \<longleftrightarrow> signature_of hf (?vs ! i) = s"
      if "i < length ?vs" for i s
    proof -
      have "?vs ! i \<in> set ?vs" using that by simp
      then have "ncols hf = length (?vs ! i)"
        using assms hf by (auto simp: rectangular_def list_all_iff)
      then show ?thesis by (auto simp: hash_vector_ok)
    qed
    have flt: "bucket_ids ?vs hf s
                 = filter (\<lambda>i. hash_vector (?vs ! i) hf = Inr s) [0..<length ?vs]" for s
      unfolding bucket_ids_def by (rule filter_cong) (auto simp: hv)
    have part: "\<exists>!s. \<exists>b. ?tab hf s = Some b \<and> i \<in> set b" if i: "i < length ?vs" for i
    proof (rule ex1I[of _ "signature_of hf (?vs ! i)"])
      have "i \<in> set (bucket_ids ?vs hf (signature_of hf (?vs ! i)))"
        using i by (simp add: bucket_ids_props(2))
      then show "\<exists>b. ?tab hf (signature_of hf (?vs ! i)) = Some b \<and> i \<in> set b"
        by auto
    next
      fix s assume "\<exists>b. ?tab hf s = Some b \<and> i \<in> set b"
      then have "i \<in> set (bucket_ids ?vs hf s)" by (auto split: if_splits)
      then show "s = signature_of hf (?vs ! i)" by (simp add: bucket_ids_props(2))
    qed
    have bk: "b \<noteq> [] \<and> b = filter (\<lambda>i. hash_vector (?vs ! i) hf = Inr s) [0..<length ?vs]
                \<and> sorted_wrt (<) b"
      if "?tab hf s = Some b" for s b
    proof -
      from that have "b = bucket_ids ?vs hf s" "b \<noteq> []" by (auto split: if_splits)
      then show ?thesis using flt[of s] bucket_ids_props(1)[of ?vs hf s] by simp
    qed
    from part bk show ?thesis by blast
  qed
  have "(\<forall>i < length ?vs. \<exists>!s. \<exists>b. (map ?tab hash_functions ! j) s = Some b \<and> i \<in> set b)
      \<and> (\<forall>s b. (map ?tab hash_functions ! j) s = Some b \<longrightarrow>
             b \<noteq> []
           \<and> b = filter (\<lambda>i. hash_vector (?vs ! i) (hash_functions ! j) = Inr s) [0..<length ?vs]
           \<and> sorted_wrt (<) b)"
    if "j < length hash_functions" for j
  proof -
    have "hash_functions ! j \<in> set hash_functions" using that by simp
    from each[OF this] show ?thesis using that by (simp only: nth_map)
  qed
  with run show ?thesis
    by (intro exI[of _ "map ?tab hash_functions"]) (simp only: length_map, blast)
qed

text \<open>
  C9 on the sample data.
\<close>

theorem index_partitions_ids_witness:
  "custom_indexing_algorithm sample_index sample_family = Inr sample_tables
   \<and> (\<exists>hash_tables. custom_indexing_algorithm sample_index sample_family = Inr hash_tables
           \<and> length hash_tables = length sample_family
           \<and> (\<forall>j < length sample_family.
                 (\<forall>i < length (rows sample_index).
                     \<exists>!s. \<exists>b. (hash_tables ! j) s = Some b \<and> i \<in> set b)
               \<and> (\<forall>s b. (hash_tables ! j) s = Some b \<longrightarrow>
                     b \<noteq> []
                   \<and> b = filter (\<lambda>i. hash_vector (rows sample_index ! i) (sample_family ! j) = Inr s)
                         [0..<length (rows sample_index)]
                   \<and> sorted_wrt (<) b)))"
  by (rule conjI, rule sample_build, rule index_partitions_ids[OF sample_rectangular(2,4)])

end
